theory Spec2Isabelle
  imports Main
begin

section \<open>Data model of Machine.c\<close>

text \<open>
  A \<^verbatim>\<open>Table*\<close> is modelled by its address; two tables are the same table exactly when
  their addresses are equal, which is the comparison \<^verbatim>\<open>this->tables[i] == table\<close> of the
  source. The null pointer is the address 0.
\<close>

type_synonym table = nat

definition NULL :: table where
  "NULL = 0"

text \<open>
  A row of the process table. \<^verbatim>\<open>Row\<close> carries \<^verbatim>\<open>id\<close> and \<^verbatim>\<open>parent\<close>, \<^verbatim>\<open>Process\<close>
  extends it with \<^verbatim>\<open>m_resident\<close> and \<^verbatim>\<open>m_accResident\<close>; the source casts between the two,
  so one record holds the four fields. The field \<^verbatim>\<open>id\<close> is named \<open>id'\<close> here. The
  \<^verbatim>\<open>long\<close> values are integers. The functions of the section on the tree accumulation
  form the sums exactly; the functions of the section on the tree accumulation in
  \<^verbatim>\<open>long\<close> carry out every addition in \<^verbatim>\<open>long\<close> and end with a fault when a sum leaves
  its range.
\<close>

record process =
  id' :: int
  parent :: int
  m_resident :: int
  m_accResident :: int

text \<open>
  The fields of \<^verbatim>\<open>Machine\<close> that the functions below read or write. The array
  \<^verbatim>\<open>tables\<close> with its length \<^verbatim>\<open>tableCount\<close> is a list; \<^verbatim>\<open>xReallocArray\<close> is taken to
  succeed. The timestamps are natural numbers. The pointer \<^verbatim>\<open>this->settings\<close> is left out:
  the settings are passed to \<^verbatim>\<open>Machine_populateTablesFromSettings\<close> and returned updated.
\<close>

record machine =
  tables :: "table list"
  activeTable :: table
  processTable :: table
  prevMonotonicMs :: nat
  monotonicMs :: nat
  maxUserId :: nat

record screenSettings =
  ss_table :: table

record settings =
  screens :: "screenSettings list"

section \<open>Table registration\<close>

definition Machine_addTable :: "machine \<Rightarrow> table \<Rightarrow> machine" where
  "Machine_addTable this table =
     (if table \<in> set (tables this) then this
      else this\<lparr>tables := tables this @ [table]\<rparr>)"

text \<open>
  The loop of \<^verbatim>\<open>Machine_populateTablesFromSettings\<close> from screen index \<open>i\<close> on. A screen
  without a table gets the process table, and the settings are updated with it.
\<close>

fun populateTables_loop ::
  "nat \<Rightarrow> machine \<Rightarrow> table \<Rightarrow> screenSettings list \<Rightarrow> machine \<times> screenSettings list" where
  "populateTables_loop i this pt [] = (this, [])"
| "populateTables_loop i this pt (ss # rest) =
     (let table = (if ss_table ss = NULL then pt else ss_table ss);
          ss' = ss\<lparr>ss_table := table\<rparr>;
          this1 = (if i = 0 then this\<lparr>activeTable := table\<rparr> else this);
          this2 = Machine_addTable this1 table;
          (this3, rest') = populateTables_loop (i + 1) this2 pt rest
      in (this3, ss' # rest'))"

definition Machine_populateTablesFromSettings ::
  "machine \<Rightarrow> settings \<Rightarrow> table \<Rightarrow> machine \<times> settings" where
  "Machine_populateTablesFromSettings this st pt =
     (let (this', scr') = populateTables_loop 0 (this\<lparr>processTable := pt\<rparr>) pt (screens st)
      in (this', st\<lparr>screens := scr'\<rparr>))"

text \<open>The table that a screen refers to once the loop has visited it.\<close>

definition screen_table :: "table \<Rightarrow> screenSettings \<Rightarrow> table" where
  "screen_table pt ss = (if ss_table ss = NULL then pt else ss_table ss)"

section \<open>Tree accumulation\<close>

text \<open>
  \<^verbatim>\<open>Machine_populateAccForProcess\<close> calls itself inside its \<^verbatim>\<open>for\<close> loop, and nothing in
  the source bounds the nesting of these calls. The model takes the number \<open>d\<close> of nested
  activations that are available; \<open>None\<close> says that the call did not return within them.
  The vector \<^verbatim>\<open>rows\<close> is a list that is passed in and returned updated; \<^verbatim>\<open>row\<close> and
  \<^verbatim>\<open>process\<close> of the source point to the element at index \<open>cur\<close>. \<^verbatim>\<open>Vector_get\<close> is only
  ever called with indices below \<^verbatim>\<open>Vector_size\<close>.

  The loop of lines 107 to 113, over the indices still to be visited. In
  \<^verbatim>\<open>process->m_accResident += Machine_populateAccForProcess(rows, n, i)\<close> the field is read
  after the call has returned. For the row sets of the properties below, those without a
  cycle and those without a negative size, the call leaves the row at \<open>cur\<close> as it is
  (\<open>populateAccForProcess_total\<close>, \<open>populateAccForProcess_keeps_row\<close>), so that reading
  the field before the call gives the same sum.
\<close>

fun populateAcc_loop ::
  "(process list \<Rightarrow> nat \<Rightarrow> (int \<times> process list) option) \<Rightarrow> nat \<Rightarrow> nat list \<Rightarrow> process list
     \<Rightarrow> process list option" where
  "populateAcc_loop call cur [] rows = Some rows"
| "populateAcc_loop call cur (i # is) rows =
     (if i = cur then populateAcc_loop call cur is rows
      else if parent (rows ! i) = id' (rows ! cur) then
        (case call rows i of
           None \<Rightarrow> None
         | Some (v, rows') \<Rightarrow>
             populateAcc_loop call cur is
               (rows'[cur := (rows' ! cur)\<lparr>m_accResident := m_accResident (rows' ! cur) + v\<rparr>]))
      else populateAcc_loop call cur is rows)"

primrec Machine_populateAccForProcess ::
  "nat \<Rightarrow> process list \<Rightarrow> nat \<Rightarrow> nat \<Rightarrow> (int \<times> process list) option" where
  "Machine_populateAccForProcess 0 rows n cur = None"
| "Machine_populateAccForProcess (Suc d) rows n cur =
     (if m_accResident (rows ! cur) \<noteq> - 1 then Some (m_accResident (rows ! cur), rows)
      else
        (case populateAcc_loop (\<lambda>rs i. Machine_populateAccForProcess d rs n i) cur [0..<n]
                (rows[cur := (rows ! cur)\<lparr>m_accResident := m_resident (rows ! cur)\<rparr>]) of
           None \<Rightarrow> None
         | Some rows' \<Rightarrow> Some (m_accResident (rows' ! cur), rows')))"

text \<open>The second loop of \<^verbatim>\<open>Machine_populateAccumulatedFields\<close> (lines 126 to 128).\<close>

fun populateAll_loop :: "nat \<Rightarrow> nat \<Rightarrow> nat list \<Rightarrow> process list \<Rightarrow> process list option" where
  "populateAll_loop d n [] rows = Some rows"
| "populateAll_loop d n (i # is) rows =
     (case Machine_populateAccForProcess d rows n i of
        None \<Rightarrow> None
      | Some (v, rows') \<Rightarrow> populateAll_loop d n is rows')"

text \<open>
  \<^verbatim>\<open>Machine_populateAccumulatedFields\<close> on the rows of the process table: every
  \<^verbatim>\<open>m_accResident\<close> is set to -1, every row is accumulated, and every \<^verbatim>\<open>m_resident\<close> is
  overwritten with \<^verbatim>\<open>m_accResident\<close>.
\<close>

definition Machine_populateAccumulatedFields :: "nat \<Rightarrow> process list \<Rightarrow> process list option" where
  "Machine_populateAccumulatedFields d rows =
     (let n = length rows;
          rows1 = map (\<lambda>p. p\<lparr>m_accResident := - 1\<rparr>) rows
      in case populateAll_loop d n [0..<n] rows1 of
           None \<Rightarrow> None
         | Some rows2 \<Rightarrow> Some (map (\<lambda>p. p\<lparr>m_resident := m_accResident p\<rparr>) rows2))"

section \<open>The scan cycle\<close>

text \<open>
  What \<^verbatim>\<open>Machine_scanTables\<close> works on: the machine, the function's static flag
  \<^verbatim>\<open>firstScanDone\<close>, the rows of every table, and the calls made so far to functions
  defined outside Machine.c.
\<close>

datatype event =
    Platform_gettime_monotonic
  | Row_resetFieldWidths
  | Table_scanPrepare table
  | Table_scanIterate table
  | Table_scanCleanup table
  | Row_setUidColumnWidth nat

type_synonym store = "table \<Rightarrow> process list"

record state =
  host :: machine
  firstScanDone :: bool
  rows_of :: store
  calls :: "event list"

text \<open>
  The three table functions are defined elsewhere. Each is a parameter here: a function
  of the table that may change the rows of the tables and the machine's \<^verbatim>\<open>maxUserId\<close>.
\<close>

type_synonym hook = "table \<Rightarrow> store \<times> nat \<Rightarrow> store \<times> nat"

record hooks =
  scanPrepare :: hook
  scanIterate :: hook
  scanCleanup :: hook

datatype error = Assertion_failed | No_return

definition run_hook :: "hook \<Rightarrow> event \<Rightarrow> table \<Rightarrow> state \<Rightarrow> state" where
  "run_hook h ev table s =
     (let (st, uid) = h table (rows_of s, maxUserId (host s))
      in s\<lparr>host := (host s)\<lparr>maxUserId := uid\<rparr>, rows_of := st, calls := calls s @ [ev]\<rparr>)"

text \<open>The body of the loop over the tables (lines 154 to 165).\<close>

definition scan_table :: "hooks \<Rightarrow> table \<Rightarrow> state \<Rightarrow> state" where
  "scan_table hk table s =
     run_hook (scanCleanup hk) (Table_scanCleanup table) table
       (run_hook (scanIterate hk) (Table_scanIterate table) table
          (run_hook (scanPrepare hk) (Table_scanPrepare table) table s))"

text \<open>
  \<^verbatim>\<open>Machine_scanTables\<close>; \<open>now\<close> is the value that \<^verbatim>\<open>Platform_gettime_monotonic\<close> stores
  when it is called. A failing \<^verbatim>\<open>assert\<close> ends the program.
\<close>

definition Machine_scanTables :: "hooks \<Rightarrow> nat \<Rightarrow> nat \<Rightarrow> state \<Rightarrow> error + state" where
  "Machine_scanTables hk d now s =
     (let s1 = (if firstScanDone s
                then s\<lparr>host := (host s)\<lparr>prevMonotonicMs := monotonicMs (host s),
                                        monotonicMs := now\<rparr>,
                       calls := calls s @ [Platform_gettime_monotonic]\<rparr>
                else s\<lparr>host := (host s)\<lparr>prevMonotonicMs := 0, monotonicMs := 1\<rparr>,
                       firstScanDone := True\<rparr>)
      in if \<not> monotonicMs (host s1) > prevMonotonicMs (host s1) then Inl Assertion_failed
         else
           let s2 = s1\<lparr>host := (host s1)\<lparr>maxUserId := 0\<rparr>,
                       calls := calls s1 @ [Row_resetFieldWidths]\<rparr>;
               s3 = fold (scan_table hk) (tables (host s2)) s2;
               pt = processTable (host s3)
           in case Machine_populateAccumulatedFields d (rows_of s3 pt) of
                None \<Rightarrow> Inl No_return
              | Some rs \<Rightarrow>
                  Inr (s3\<lparr>rows_of := (rows_of s3)(pt := rs),
                          calls := calls s3 @ [Row_setUidColumnWidth (maxUserId (host s3))]\<rparr>))"


text \<open>The calls that one iteration of the loop over the tables makes, and their effect.\<close>

definition events_of_table :: "table \<Rightarrow> event list" where
  "events_of_table t = [Table_scanPrepare t, Table_scanIterate t, Table_scanCleanup t]"

definition refresh_table :: "hooks \<Rightarrow> table \<Rightarrow> store \<times> nat \<Rightarrow> store \<times> nat" where
  "refresh_table hk t w = scanCleanup hk t (scanIterate hk t (scanPrepare hk t w))"

text \<open>Table functions that leave the rows of table \<open>pt\<close> as they are.\<close>

definition keeps_rows :: "hooks \<Rightarrow> table \<Rightarrow> bool" where
  "keeps_rows hk pt = (\<forall>t w. fst (refresh_table hk t w) pt = fst w pt)"

section \<open>Notions for the properties of the accumulation\<close>

text \<open>The fields of a row that the accumulation only reads while it recurses.\<close>

definition static :: "process \<Rightarrow> int \<times> int \<times> int" where
  "static p = (id' p, parent p, m_resident p)"

text \<open>The rows whose \<^verbatim>\<open>m_accResident\<close> holds the initial -1.\<close>

definition unset :: "process list \<Rightarrow> nat set" where
  "unset rows = {j. j < length rows \<and> m_accResident (rows ! j) = - 1}"

text \<open>Resident sizes are not negative, and no accumulated value is below the initial -1.\<close>

definition inv_nonneg :: "process list \<Rightarrow> bool" where
  "inv_nonneg rows = (\<forall>p \<in> set rows. 0 \<le> m_resident p \<and> - 1 \<le> m_accResident p)"

text \<open>
  What a call on a row returns when the values are non-negative; it leaves alone every
  row that was no longer at -1 when it was called.
\<close>

definition returns_nonneg ::
  "nat \<Rightarrow> (process list \<Rightarrow> nat \<Rightarrow> (int \<times> process list) option) \<Rightarrow> nat \<Rightarrow> bool" where
  "returns_nonneg n call d =
     (\<forall>rows i. inv_nonneg rows \<and> length rows = n \<and> i < n \<and> card (unset rows) < d \<longrightarrow>
        (\<exists>v rows'. call rows i = Some (v, rows') \<and> 0 \<le> v \<and> inv_nonneg rows' \<and>
           map static rows' = map static rows \<and> unset rows' \<subseteq> unset rows - {i} \<and>
           (\<forall>k < n. k \<notin> unset rows \<longrightarrow> rows' ! k = rows ! k)))"

text \<open>
  The parent graph on the identifiers: an edge from the parent identifier of every row to
  the row's own identifier.
\<close>

definition parent_graph :: "process list \<Rightarrow> (int \<times> int) set" where
  "parent_graph rows = (\<lambda>r. (parent r, id' r)) ` set rows"

text \<open>
  The same relation on the indices of the vector, as the loop of
  \<^verbatim>\<open>Machine_populateAccForProcess\<close> tests it: \<open>j\<close> is a child of \<open>i\<close>.
\<close>

definition child_idx :: "process list \<Rightarrow> (nat \<times> nat) set" where
  "child_idx base =
     {(i, j). i < length base \<and> j < length base \<and> i \<noteq> j \<and> parent (base ! j) = id' (base ! i)}"

definition below :: "process list \<Rightarrow> nat \<Rightarrow> nat set" where
  "below base i = (child_idx base)\<^sup>+ `` {i}"

definition cone :: "process list \<Rightarrow> nat \<Rightarrow> nat set" where
  "cone base i = insert i (below base i)"

text \<open>
  The resident size of a row plus the totals of its children, by recursion along the
  child relation; it is only used where that relation has no cycle.
\<close>

definition subtree_total :: "process list \<Rightarrow> nat \<Rightarrow> int" where
  "subtree_total base =
     wfrec ((child_idx base)\<inverse>)
       (\<lambda>f j. m_resident (base ! j) + (\<Sum>c | (j, c) \<in> child_idx base. f c))"

text \<open>
  What a call on row \<open>i\<close> does when the child relation has no cycle: it returns the total
  of the row, changes rows below \<open>i\<close> only, and leaves every row either untouched or at
  its total.
\<close>

definition returns_total ::
  "process list \<Rightarrow> (process list \<Rightarrow> nat \<Rightarrow> (int \<times> process list) option) \<Rightarrow> nat \<Rightarrow> bool" where
  "returns_total base call d =
     (\<forall>rows i.
        map static rows = map static base \<and> i < length base \<and> card (below base i) < d \<and>
        (\<forall>k \<in> cone base i. m_accResident (rows ! k) = - 1 \<or>
                             m_accResident (rows ! k) = subtree_total base k) \<longrightarrow>
        (\<exists>rows'. call rows i = Some (subtree_total base i, rows') \<and>
           map static rows' = map static base \<and>
           m_accResident (rows' ! i) = subtree_total base i \<and>
           (\<forall>k < length base. k \<notin> cone base i \<longrightarrow> rows' ! k = rows ! k) \<and>
           (\<forall>k \<in> cone base i. m_accResident (rows' ! k) = - 1 \<or>
                                m_accResident (rows' ! k) = subtree_total base k) \<and>
           (\<forall>k < length base. m_accResident (rows ! k) = subtree_total base k \<longrightarrow>
                               m_accResident (rows' ! k) = subtree_total base k)))"

text \<open>
  What holds in the loop of row \<open>cur\<close> once the indices in \<open>D\<close> have been visited;
  \<open>rows\<close> is the vector at the start of the call.
\<close>

definition loop_inv ::
  "process list \<Rightarrow> process list \<Rightarrow> nat \<Rightarrow> process list \<Rightarrow> nat set \<Rightarrow> bool" where
  "loop_inv base rows cur rc D =
     (map static rc = map static base \<and>
      m_accResident (rc ! cur) =
        m_resident (base ! cur) + (\<Sum>k | (cur, k) \<in> child_idx base \<and> k \<in> D. subtree_total base k) \<and>
      (\<forall>k \<in> below base cur. m_accResident (rc ! k) = - 1 \<or>
                              m_accResident (rc ! k) = subtree_total base k) \<and>
      (\<forall>k < length base. k \<notin> cone base cur \<longrightarrow> rc ! k = rows ! k) \<and>
      (\<forall>k < length base. k \<noteq> cur \<longrightarrow> m_accResident (rows ! k) = subtree_total base k \<longrightarrow>
                          m_accResident (rc ! k) = subtree_total base k))"

text \<open>The rows whose parent identifier is the identifier of \<open>p\<close>.\<close>

definition children_of :: "process list \<Rightarrow> process \<Rightarrow> process list" where
  "children_of rows p = filter (\<lambda>r. parent r = id' p) rows"

text \<open>The rows whose parent identifier is the identifier of no row.\<close>

definition roots_of :: "process list \<Rightarrow> process list" where
  "roots_of rows = filter (\<lambda>r. parent r \<notin> id' ` set rows) rows"

section \<open>Tree accumulation with a count of the loop iterations\<close>

text \<open>
  The same three functions with a counter \<open>t\<close> that is advanced once for every
  iteration of the loop of lines 107 to 113, the place that the source marks as running
  in quadratic time. Nothing else differs.
\<close>

fun populateAcc_loop_count ::
  "(process list \<Rightarrow> nat \<Rightarrow> nat \<Rightarrow> ((int \<times> process list) \<times> nat) option) \<Rightarrow> nat \<Rightarrow> nat list \<Rightarrow>
     process list \<Rightarrow> nat \<Rightarrow> (process list \<times> nat) option" where
  "populateAcc_loop_count call cur [] rows t = Some (rows, t)"
| "populateAcc_loop_count call cur (i # is) rows t =
     (if i = cur then populateAcc_loop_count call cur is rows (t + 1)
      else if parent (rows ! i) = id' (rows ! cur) then
        (case call rows i (t + 1) of
           None \<Rightarrow> None
         | Some ((v, rows'), t') \<Rightarrow>
             populateAcc_loop_count call cur is
               (rows'[cur := (rows' ! cur)\<lparr>m_accResident := m_accResident (rows' ! cur) + v\<rparr>]) t')
      else populateAcc_loop_count call cur is rows (t + 1))"

primrec Machine_populateAccForProcess_count ::
  "nat \<Rightarrow> process list \<Rightarrow> nat \<Rightarrow> nat \<Rightarrow> nat \<Rightarrow> ((int \<times> process list) \<times> nat) option" where
  "Machine_populateAccForProcess_count 0 rows n cur t = None"
| "Machine_populateAccForProcess_count (Suc d) rows n cur t =
     (if m_accResident (rows ! cur) \<noteq> - 1 then Some ((m_accResident (rows ! cur), rows), t)
      else
        (case populateAcc_loop_count (\<lambda>rs i u. Machine_populateAccForProcess_count d rs n i u)
                cur [0..<n]
                (rows[cur := (rows ! cur)\<lparr>m_accResident := m_resident (rows ! cur)\<rparr>]) t of
           None \<Rightarrow> None
         | Some (rows', t') \<Rightarrow> Some ((m_accResident (rows' ! cur), rows'), t')))"

fun populateAll_loop_count ::
  "nat \<Rightarrow> nat \<Rightarrow> nat list \<Rightarrow> process list \<Rightarrow> nat \<Rightarrow> (process list \<times> nat) option" where
  "populateAll_loop_count d n [] rows t = Some (rows, t)"
| "populateAll_loop_count d n (i # is) rows t =
     (case Machine_populateAccForProcess_count d rows n i t of
        None \<Rightarrow> None
      | Some ((v, rows'), t') \<Rightarrow> populateAll_loop_count d n is rows' t')"

definition Machine_populateAccumulatedFields_count ::
  "nat \<Rightarrow> process list \<Rightarrow> (process list \<times> nat) option" where
  "Machine_populateAccumulatedFields_count d rows =
     (let n = length rows;
          rows1 = map (\<lambda>p. p\<lparr>m_accResident := - 1\<rparr>) rows
      in case populateAll_loop_count d n [0..<n] rows1 0 of
           None \<Rightarrow> None
         | Some (rows2, t) \<Rightarrow> Some (map (\<lambda>p. p\<lparr>m_resident := m_accResident p\<rparr>) rows2, t))"

text \<open>The count of a call, whenever it returns, with non-negative values.\<close>

definition counts_rows ::
  "nat \<Rightarrow> (process list \<Rightarrow> nat \<Rightarrow> nat \<Rightarrow> ((int \<times> process list) \<times> nat) option) \<Rightarrow> nat \<Rightarrow> bool" where
  "counts_rows n call d =
     (\<forall>rows i t v rows' t'.
        inv_nonneg rows \<and> length rows = n \<and> i < n \<and> card (unset rows) < d \<and>
        call rows i t = Some ((v, rows'), t') \<longrightarrow>
        t' + n * card (unset rows') = t + n * card (unset rows))"

section \<open>Notions for the properties of the scan cycle\<close>





section \<open>Tree accumulation in long\<close>

text \<open>
  \<^verbatim>\<open>m_resident\<close>, \<^verbatim>\<open>m_accResident\<close> and the value that \<^verbatim>\<open>Machine_populateAccForProcess\<close>
  returns are \<^verbatim>\<open>long\<close> in the source, taken here as 64 bits wide. An addition whose sum
  leaves the range of \<^verbatim>\<open>long\<close> is undefined in C (on the usual platforms it wraps
  around, from \<^verbatim>\<open>LONG_MAX\<close> to \<^verbatim>\<open>LONG_MIN\<close>); it is the fault \<open>Signed_overflow\<close> here.
\<close>

definition LONG_MAX :: int where
  "LONG_MAX = 9223372036854775807"

definition LONG_MIN :: int where
  "LONG_MIN = - 9223372036854775808"

definition in_long :: "int \<Rightarrow> bool" where
  "in_long x = (LONG_MIN \<le> x \<and> x \<le> LONG_MAX)"

definition long_add :: "int \<Rightarrow> int \<Rightarrow> int option" where
  "long_add a b = (if in_long (a + b) then Some (a + b) else None)"

datatype fault = Signed_overflow | Depth_exceeded

text \<open>
  The functions of the accumulation once more, with the addition of line 111 carried out
  in \<^verbatim>\<open>long\<close>. The functions further up form the same sums exactly; they are these
  functions as long as no addition overflows (\<open>populateAccumulatedFields_long_exact\<close>,
  \<open>populateAccumulatedFields_exact_long\<close>).
\<close>

fun populateAcc_loop_long ::
  "(process list \<Rightarrow> nat \<Rightarrow> fault + (int \<times> process list)) \<Rightarrow> nat \<Rightarrow> nat list \<Rightarrow> process list
     \<Rightarrow> fault + process list" where
  "populateAcc_loop_long call cur [] rows = Inr rows"
| "populateAcc_loop_long call cur (i # is) rows =
     (if i = cur then populateAcc_loop_long call cur is rows
      else if parent (rows ! i) = id' (rows ! cur) then
        (case call rows i of
           Inl e \<Rightarrow> Inl e
         | Inr (v, rows') \<Rightarrow>
             (case long_add (m_accResident (rows' ! cur)) v of
                None \<Rightarrow> Inl Signed_overflow
              | Some x \<Rightarrow>
                  populateAcc_loop_long call cur is
                    (rows'[cur := (rows' ! cur)\<lparr>m_accResident := x\<rparr>])))
      else populateAcc_loop_long call cur is rows)"

primrec Machine_populateAccForProcess_long ::
  "nat \<Rightarrow> process list \<Rightarrow> nat \<Rightarrow> nat \<Rightarrow> fault + (int \<times> process list)" where
  "Machine_populateAccForProcess_long 0 rows n cur = Inl Depth_exceeded"
| "Machine_populateAccForProcess_long (Suc d) rows n cur =
     (if m_accResident (rows ! cur) \<noteq> - 1 then Inr (m_accResident (rows ! cur), rows)
      else
        (case populateAcc_loop_long (\<lambda>rs i. Machine_populateAccForProcess_long d rs n i) cur [0..<n]
                (rows[cur := (rows ! cur)\<lparr>m_accResident := m_resident (rows ! cur)\<rparr>]) of
           Inl e \<Rightarrow> Inl e
         | Inr rows' \<Rightarrow> Inr (m_accResident (rows' ! cur), rows')))"

fun populateAll_loop_long :: "nat \<Rightarrow> nat \<Rightarrow> nat list \<Rightarrow> process list \<Rightarrow> fault + process list" where
  "populateAll_loop_long d n [] rows = Inr rows"
| "populateAll_loop_long d n (i # is) rows =
     (case Machine_populateAccForProcess_long d rows n i of
        Inl e \<Rightarrow> Inl e
      | Inr (v, rows') \<Rightarrow> populateAll_loop_long d n is rows')"

definition Machine_populateAccumulatedFields_long :: "nat \<Rightarrow> process list \<Rightarrow> fault + process list" where
  "Machine_populateAccumulatedFields_long d rows =
     (let n = length rows;
          rows1 = map (\<lambda>p. p\<lparr>m_accResident := - 1\<rparr>) rows
      in case populateAll_loop_long d n [0..<n] rows1 of
           Inl e \<Rightarrow> Inl e
         | Inr rows2 \<Rightarrow> Inr (map (\<lambda>p. p\<lparr>m_resident := m_accResident p\<rparr>) rows2))"


section \<open>Tree accumulation with a log of the additions\<close>

text \<open>
  The functions in \<^verbatim>\<open>long\<close> once more, with a log of the additions of line 111. The
  functions take along the rows whose loop is running: \<open>stack\<close> holds the row of the
  running loop first, then the rows of its callers. These are the rows in progress. An
  entry of the log names the row that is added to, the child whose call has returned, the
  value that the call returned, whether the child was in progress when it was called, the
  rows as they were at the call and the rows as the call returned them. Nothing else
  differs.
\<close>

record addition =
  into :: nat
  child :: nat
  amount :: int
  in_progress :: bool
  before :: "process list"
  returned :: "process list"

fun populateAcc_loop_met ::
  "(process list \<Rightarrow> nat \<Rightarrow> addition list \<Rightarrow> fault + ((int \<times> process list) \<times> addition list)) \<Rightarrow>
     nat list \<Rightarrow> nat \<Rightarrow> nat list \<Rightarrow> process list \<Rightarrow> addition list \<Rightarrow>
     fault + (process list \<times> addition list)" where
  "populateAcc_loop_met call stack cur [] rows adds = Inr (rows, adds)"
| "populateAcc_loop_met call stack cur (i # is) rows adds =
     (if i = cur then populateAcc_loop_met call stack cur is rows adds
      else if parent (rows ! i) = id' (rows ! cur) then
        (case call rows i adds of
           Inl e \<Rightarrow> Inl e
         | Inr ((v, rows'), adds') \<Rightarrow>
             (case long_add (m_accResident (rows' ! cur)) v of
                None \<Rightarrow> Inl Signed_overflow
              | Some x \<Rightarrow>
                  populateAcc_loop_met call stack cur is
                    (rows'[cur := (rows' ! cur)\<lparr>m_accResident := x\<rparr>])
                    (adds' @ [\<lparr>into = cur, child = i, amount = v, in_progress = (i \<in> set stack),
                               before = rows, returned = rows'\<rparr>])))
      else populateAcc_loop_met call stack cur is rows adds)"

primrec Machine_populateAccForProcess_met ::
  "nat \<Rightarrow> nat list \<Rightarrow> process list \<Rightarrow> nat \<Rightarrow> nat \<Rightarrow> addition list \<Rightarrow>
     fault + ((int \<times> process list) \<times> addition list)" where
  "Machine_populateAccForProcess_met 0 stack rows n cur adds = Inl Depth_exceeded"
| "Machine_populateAccForProcess_met (Suc d) stack rows n cur adds =
     (if m_accResident (rows ! cur) \<noteq> - 1 then Inr ((m_accResident (rows ! cur), rows), adds)
      else
        (case populateAcc_loop_met
                (\<lambda>rs i u. Machine_populateAccForProcess_met d (cur # stack) rs n i u)
                (cur # stack) cur [0..<n]
                (rows[cur := (rows ! cur)\<lparr>m_accResident := m_resident (rows ! cur)\<rparr>]) adds of
           Inl e \<Rightarrow> Inl e
         | Inr (rows', adds') \<Rightarrow> Inr ((m_accResident (rows' ! cur), rows'), adds')))"

fun populateAll_loop_met ::
  "nat \<Rightarrow> nat \<Rightarrow> nat list \<Rightarrow> process list \<Rightarrow> addition list \<Rightarrow>
     fault + (process list \<times> addition list)" where
  "populateAll_loop_met d n [] rows adds = Inr (rows, adds)"
| "populateAll_loop_met d n (i # is) rows adds =
     (case Machine_populateAccForProcess_met d [] rows n i adds of
        Inl e \<Rightarrow> Inl e
      | Inr ((v, rows'), adds') \<Rightarrow> populateAll_loop_met d n is rows' adds')"

definition Machine_populateAccumulatedFields_met ::
  "nat \<Rightarrow> process list \<Rightarrow> fault + (process list \<times> addition list)" where
  "Machine_populateAccumulatedFields_met d rows =
     (let n = length rows;
          rows1 = map (\<lambda>p. p\<lparr>m_accResident := - 1\<rparr>) rows
      in case populateAll_loop_met d n [0..<n] rows1 [] of
           Inl e \<Rightarrow> Inl e
         | Inr (rows2, adds) \<Rightarrow> Inr (map (\<lambda>p. p\<lparr>m_resident := m_accResident p\<rparr>) rows2, adds))"

text \<open>What the additions of a log have added to the row \<open>k\<close>.\<close>

definition added :: "addition list \<Rightarrow> nat \<Rightarrow> int" where
  "added adds k = sum_list (map amount (filter (\<lambda>a. into a = k) adds))"

text \<open>
  Every addition of the log has added the resident size of the child (\<open>raw\<close> holds the
  resident sizes) plus what had been added to the child until then, and the call on a
  child in progress has changed no row and has returned the value that the child held.
\<close>

definition log_ok :: "int list \<Rightarrow> addition list \<Rightarrow> bool" where
  "log_ok raw adds =
     (\<forall>k < length adds.
        child (adds ! k) < length raw \<and>
        amount (adds ! k) = raw ! child (adds ! k) + added (take k adds) (child (adds ! k)) \<and>
        (in_progress (adds ! k) \<longrightarrow>
           returned (adds ! k) = before (adds ! k) \<and>
           m_accResident (before (adds ! k) ! child (adds ! k)) = amount (adds ! k)))"

text \<open>
  The rows and the log between two steps of the traversal: the rows in progress are no
  longer at -1, nothing has been added to a row at -1, and every other row holds its
  resident size plus what has been added to it.
\<close>

definition met_inv :: "int list \<Rightarrow> nat list \<Rightarrow> process list \<Rightarrow> addition list \<Rightarrow> bool" where
  "met_inv raw stack rows adds =
     (inv_nonneg rows \<and> map m_resident rows = raw \<and> set stack \<inter> unset rows = {} \<and>
      (\<forall>k \<in> unset rows. \<forall>a \<in> set adds. into a \<noteq> k) \<and>
      (\<forall>k < length rows. k \<notin> unset rows \<longrightarrow> m_accResident (rows ! k) = raw ! k + added adds k) \<and>
      log_ok raw adds)"

section \<open>Example inputs\<close>

definition machine0 :: machine where
  "machine0 = \<lparr>tables = [], activeTable = NULL, processTable = NULL, prevMonotonicMs = 0, monotonicMs = 0, maxUserId = 0\<rparr>"

definition settings0 :: settings where
  "settings0 = \<lparr>screens = [\<lparr>ss_table = 0\<rparr>, \<lparr>ss_table = 7\<rparr>, \<lparr>ss_table = 0\<rparr>,  \<lparr>ss_table = 7\<rparr>,  \<lparr>ss_table = 9\<rparr>]\<rparr>"

text \<open>A process table of a parent and its child, refreshed by \<^verbatim>\<open>Table_scanIterate\<close>.\<close>

definition rows0 :: "process list" where
  "rows0 = [\<lparr>id' = 1, parent = 0, m_resident = 100, m_accResident = 0\<rparr>,
            \<lparr>id' = 2, parent = 1, m_resident = 50, m_accResident = 0\<rparr>]"

definition hooks0 :: hooks where
  "hooks0 = \<lparr>scanPrepare = (\<lambda>t w. w),
             scanIterate = (\<lambda>t w. ((fst w)(t := rows0), max (snd w) 1000)),
             scanCleanup = (\<lambda>t w. w)\<rparr>"

text \<open>Table functions that do nothing.\<close>

definition hooks_idle :: hooks where
  "hooks_idle = \<lparr>scanPrepare = (\<lambda>t w. w), scanIterate = (\<lambda>t w. w), scanCleanup = (\<lambda>t w. w)\<rparr>"

definition state0 :: state where
  "state0 = \<lparr>host = machine0\<lparr>tables := [5], activeTable := 5, processTable := 5\<rparr>,
             firstScanDone = False, rows_of = (\<lambda>t. []), calls = []\<rparr>"

text \<open>The state that the first scan of \<open>state0\<close> leaves behind.\<close>

definition state1 :: state where
  "state1 =  \<lparr>host = \<lparr>tables = [5], activeTable = 5, processTable = 5, prevMonotonicMs = 0,
                   monotonicMs = 1, maxUserId = 1000\<rparr>,
          firstScanDone = True,
          rows_of = (\<lambda>t. [])(5 := [\<lparr>id' = 1, parent = 0, m_resident = 150, m_accResident = 150\<rparr>,
                                      \<lparr>id' = 2, parent = 1, m_resident = 50, m_accResident = 50\<rparr>]),
          calls = [Row_resetFieldWidths, Table_scanPrepare 5, Table_scanIterate 5,
                   Table_scanCleanup 5, Row_setUidColumnWidth 1000]\<rparr>"


text \<open>
  Row 1 and row 2 are each other's parent, and row 3 is a second child of row 1 that is
  visited before row 2.
\<close>

definition rows_cycle3 :: "process list" where
  "rows_cycle3 = [\<lparr>id' = 1, parent = 2, m_resident = 1, m_accResident = 0\<rparr>,
                  \<lparr>id' = 3, parent = 1, m_resident = 10, m_accResident = 0\<rparr>,
                  \<lparr>id' = 2, parent = 1, m_resident = 100, m_accResident = 0\<rparr>]"

text \<open>
  The same rows at the moment when the accumulation of row 1 has added row 3 and has
  descended into row 2.
\<close>

definition rows_cycle3_mid :: "process list" where
  "rows_cycle3_mid = [\<lparr>id' = 1, parent = 2, m_resident = 1, m_accResident = 11\<rparr>,
                      \<lparr>id' = 3, parent = 1, m_resident = 10, m_accResident = 10\<rparr>,
                      \<lparr>id' = 2, parent = 1, m_resident = 100, m_accResident = 100\<rparr>]"

text \<open>
  A forest: row 1 with the children 2 and 3, row 4 below row 2, and row 100 whose parent
  99 is not in the table.
\<close>

definition rows_forest :: "process list" where
  "rows_forest = [\<lparr>id' = 1, parent = 0, m_resident = 100, m_accResident = 0\<rparr>,
                  \<lparr>id' = 2, parent = 1, m_resident = 50, m_accResident = 0\<rparr>,
                  \<lparr>id' = 3, parent = 1, m_resident = 25, m_accResident = 0\<rparr>,
                  \<lparr>id' = 4, parent = 2, m_resident = 10, m_accResident = 0\<rparr>,
                  \<lparr>id' = 100, parent = 99, m_resident = 5, m_accResident = 0\<rparr>]"

text \<open>Four rows without parents in the table, and so without any parent edge.\<close>

definition rows_flat :: "process list" where
  "rows_flat = [\<lparr>id' = 1, parent = 0, m_resident = 1, m_accResident = 0\<rparr>,
                \<lparr>id' = 2, parent = 0, m_resident = 1, m_accResident = 0\<rparr>,
                \<lparr>id' = 3, parent = 0, m_resident = 1, m_accResident = 0\<rparr>,
                \<lparr>id' = 4, parent = 0, m_resident = 1, m_accResident = 0\<rparr>]"

text \<open>Two rows that are each other's parent, with the resident size -1.\<close>

definition rows_minus :: "process list" where
  "rows_minus = [\<lparr>id' = 1, parent = 2, m_resident = - 1, m_accResident = - 1\<rparr>,
                 \<lparr>id' = 2, parent = 1, m_resident = - 1, m_accResident = - 1\<rparr>]"


text \<open>Two rows with the identifier 1, and a row whose parent is 1.\<close>

definition rows_dup :: "process list" where
  "rows_dup = [\<lparr>id' = 1, parent = 0, m_resident = 1, m_accResident = 0\<rparr>,
               \<lparr>id' = 1, parent = 0, m_resident = 1, m_accResident = 0\<rparr>,
               \<lparr>id' = 2, parent = 1, m_resident = 5, m_accResident = 0\<rparr>]"

section \<open>Table registration: properties\<close>

lemma addTable_tables:
  "tables (Machine_addTable this t) = (if t \<in> set (tables this) then tables this else tables this @ [t])"
  by (simp add: Machine_addTable_def)

lemma addTable_active: "activeTable (Machine_addTable this t) = activeTable this"
  by (simp add: Machine_addTable_def)

lemma addTable_distinct: "distinct (tables this) \<Longrightarrow> distinct (tables (Machine_addTable this t))"
  by (simp add: addTable_tables)

lemma addTable_set: "set (tables (Machine_addTable this t)) = insert t (set (tables this))"
  by (auto simp add: addTable_tables)

lemma addTable_hd: "tables this \<noteq> [] \<Longrightarrow> hd (tables (Machine_addTable this t)) = hd (tables this)"
  by (simp add: addTable_tables)

lemma loop_later:
  "0 < i \<Longrightarrow> tables this \<noteq> [] \<Longrightarrow>
   activeTable (fst (populateTables_loop i this pt sc)) = activeTable this \<and>
   hd (tables (fst (populateTables_loop i this pt sc))) = hd (tables this)"
proof (induction sc arbitrary: i this)
  case Nil
  then show ?case by simp
next
  case (Cons ss rest)
  let ?t = "if ss_table ss = NULL then pt else ss_table ss"
  let ?m = "Machine_addTable this ?t"
  have ne: "tables ?m \<noteq> []" using Cons.prems by (simp add: addTable_tables)
  have "activeTable (fst (populateTables_loop (i + 1) ?m pt rest)) = activeTable ?m \<and>
        hd (tables (fst (populateTables_loop (i + 1) ?m pt rest))) = hd (tables ?m)"
    using Cons.IH [of "i + 1" ?m] ne by simp
  then show ?case using Cons.prems
    by (simp add: Let_def split_beta addTable_active addTable_hd)
qed

lemma loop_distinct_set:
  "distinct (tables this) \<Longrightarrow>
   distinct (tables (fst (populateTables_loop i this pt sc))) \<and>
   set (tables (fst (populateTables_loop i this pt sc))) = set (tables this) \<union> screen_table pt ` set sc"
proof (induction sc arbitrary: i this)
  case Nil
  then show ?case by simp
next
  case (Cons ss rest)
  let ?t = "if ss_table ss = NULL then pt else ss_table ss"
  let ?this1 = "if i = 0 then this\<lparr>activeTable := ?t\<rparr> else this"
  let ?m = "Machine_addTable ?this1 ?t"
  have d: "distinct (tables ?m)" using Cons.prems by (simp add: addTable_tables)
  have s: "set (tables ?m) = insert ?t (set (tables this))" by (simp add: addTable_set)
  show ?case using Cons.IH [OF d, of "i + 1"] s
    by (simp add: Let_def split_beta screen_table_def)
qed

lemma loop_screens:
  "snd (populateTables_loop i this pt sc) = map (\<lambda>ss. ss\<lparr>ss_table := screen_table pt ss\<rparr>) sc"
  by (induction sc arbitrary: i this) (simp_all add: Let_def split_beta screen_table_def)

text \<open>
  Claim C8. Registering a table that the registry already holds leaves the machine as it
  is; registering any other table appends it at the end of the registry. When
  \<^verbatim>\<open>Machine_populateTablesFromSettings\<close> fills an empty registry from a non-empty list of
  screens, the active table is the table of the first screen, which is also the first
  entry of the registry; the registry then has no duplicates and holds exactly the tables
  of the screens.
\<close>

theorem Machine_addTable_registry:
  "(table \<in> set (tables this) \<longrightarrow> Machine_addTable this table = this) \<and>
   (table \<notin> set (tables this) \<longrightarrow>
      Machine_addTable this table = this\<lparr>tables := tables this @ [table]\<rparr>) \<and>
   (tables this = [] \<and> screens st \<noteq> [] \<longrightarrow>
      (let this' = fst (Machine_populateTablesFromSettings this st pt) in
         activeTable this' = screen_table pt (hd (screens st)) \<and>
         tables this' \<noteq> [] \<and>
         activeTable this' = hd (tables this') \<and>
         distinct (tables this') \<and>
         set (tables this') = screen_table pt ` set (screens st)))"
proof (intro conjI impI)
  show "Machine_addTable this table = this" if "table \<in> set (tables this)"
    using that by (simp add: Machine_addTable_def)
  show "Machine_addTable this table = this\<lparr>tables := tables this @ [table]\<rparr>"
    if "table \<notin> set (tables this)"
    using that by (simp add: Machine_addTable_def)
next
  assume a: "tables this = [] \<and> screens st \<noteq> []"
  then obtain ss rest where sc: "screens st = ss # rest" by (cases "screens st") auto
  let ?t = "screen_table pt ss"
  let ?machine0 = "this\<lparr>processTable := pt\<rparr>"
  let ?m = "Machine_addTable (?machine0\<lparr>activeTable := ?t\<rparr>) ?t"
  let ?r = "fst (populateTables_loop 1 ?m pt rest)"
  have res: "fst (Machine_populateTablesFromSettings this st pt) = ?r"
    by (simp add: Machine_populateTablesFromSettings_def sc Let_def split_beta screen_table_def)
  have tm: "tables ?m = [?t]" using a by (simp add: addTable_tables)
  have am: "activeTable ?m = ?t" by (simp add: addTable_active)
  have l: "activeTable ?r = ?t \<and> hd (tables ?r) = ?t"
    using loop_later [of 1 ?m pt rest] tm am by simp
  have ds: "distinct (tables ?r) \<and> set (tables ?r) = {?t} \<union> screen_table pt ` set rest"
    using loop_distinct_set [of ?m 1 pt rest] tm by simp
  then have ne: "tables ?r \<noteq> []" by auto
  show "let this' = fst (Machine_populateTablesFromSettings this st pt) in
         activeTable this' = screen_table pt (hd (screens st)) \<and>
         tables this' \<noteq> [] \<and>
         activeTable this' = hd (tables this') \<and>
         distinct (tables this') \<and>
         set (tables this') = screen_table pt ` set (screens st)"
    unfolding Let_def res using l ds ne by (simp add: sc)
qed

text \<open>
  The registry [5, 7] with the tables 7 (present) and 9 (new), and five screens over the
  tables 5, 7 and 9, two of them without a table of their own.
\<close>

theorem Machine_addTable_registry_witness:
  "Machine_addTable (machine0\<lparr>tables := [5, 7]\<rparr>) 7 = machine0\<lparr>tables := [5, 7]\<rparr> \<and>
   Machine_addTable (machine0\<lparr>tables := [5, 7]\<rparr>) 9 = machine0\<lparr>tables := [5, 7, 9]\<rparr> \<and>
   activeTable (fst (Machine_populateTablesFromSettings machine0 settings0 5)) = 5 \<and>
   hd (tables (fst (Machine_populateTablesFromSettings machine0 settings0 5))) = 5 \<and>
   distinct (tables (fst (Machine_populateTablesFromSettings machine0 settings0 5))) \<and>
   set (tables (fst (Machine_populateTablesFromSettings machine0 settings0 5))) = {5, 7, 9}"
proof -
  have a: "(7::nat) \<in> set (tables (machine0\<lparr>tables := [5, 7]\<rparr>))" by simp
  have b: "(9::nat) \<notin> set (tables (machine0\<lparr>tables := [5, 7]\<rparr>))" by simp
  have c: "tables machine0 = [] \<and> screens settings0 \<noteq> []" by (simp add: machine0_def settings0_def)
  have s: "screen_table 5 ` set (screens settings0) = {5, 7, 9}"
    by (auto simp add: settings0_def screen_table_def NULL_def)
  have h: "screen_table 5 (hd (screens settings0)) = 5"
    by (simp add: settings0_def screen_table_def NULL_def)
  show ?thesis
    using Machine_addTable_registry [of 7 "machine0\<lparr>tables := [5, 7]\<rparr>" settings0 5] a
          Machine_addTable_registry [of 9 "machine0\<lparr>tables := [5, 7]\<rparr>" settings0 5] b
          Machine_addTable_registry [of 9 machine0 settings0 5] c s h
    by (simp add: Let_def)
qed

section \<open>The scan cycle: properties\<close>

lemma run_hook_simps:
  "calls (run_hook h ev t s) = calls s @ [ev]"
  "firstScanDone (run_hook h ev t s) = firstScanDone s"
  "tables (host (run_hook h ev t s)) = tables (host s)"
  "processTable (host (run_hook h ev t s)) = processTable (host s)"
  "monotonicMs (host (run_hook h ev t s)) = monotonicMs (host s)"
  "prevMonotonicMs (host (run_hook h ev t s)) = prevMonotonicMs (host s)"
  "activeTable (host (run_hook h ev t s)) = activeTable (host s)"
  "(rows_of (run_hook h ev t s), maxUserId (host (run_hook h ev t s))) = h t (rows_of s, maxUserId (host s))"
  by (simp_all add: run_hook_def split_beta)

lemma scan_table_simps:
  "calls (scan_table hk t s) = calls s @ events_of_table t"
  "firstScanDone (scan_table hk t s) = firstScanDone s"
  "tables (host (scan_table hk t s)) = tables (host s)"
  "processTable (host (scan_table hk t s)) = processTable (host s)"
  "monotonicMs (host (scan_table hk t s)) = monotonicMs (host s)"
  "prevMonotonicMs (host (scan_table hk t s)) = prevMonotonicMs (host s)"
  "activeTable (host (scan_table hk t s)) = activeTable (host s)"
  "(rows_of (scan_table hk t s), maxUserId (host (scan_table hk t s))) =
     refresh_table hk t (rows_of s, maxUserId (host s))"
  by (simp_all add: scan_table_def run_hook_simps events_of_table_def refresh_table_def)

lemma fold_scan_table:
  "calls (fold (scan_table hk) ts s) = calls s @ concat (map events_of_table ts) \<and>
   firstScanDone (fold (scan_table hk) ts s) = firstScanDone s \<and>
   tables (host (fold (scan_table hk) ts s)) = tables (host s) \<and>
   processTable (host (fold (scan_table hk) ts s)) = processTable (host s) \<and>
   monotonicMs (host (fold (scan_table hk) ts s)) = monotonicMs (host s) \<and>
   prevMonotonicMs (host (fold (scan_table hk) ts s)) = prevMonotonicMs (host s) \<and>
   activeTable (host (fold (scan_table hk) ts s)) = activeTable (host s) \<and>
   (rows_of (fold (scan_table hk) ts s), maxUserId (host (fold (scan_table hk) ts s))) =
     fold (refresh_table hk) ts (rows_of s, maxUserId (host s))"
  by (induction ts arbitrary: s) (simp_all add: scan_table_simps)



text \<open>
  Claim C6. On a scan that is not the first, a timestamp that is not strictly greater than
  the logical time of the cycle before fails the assertion, and the scan ends there
  without a resulting state. With a strictly greater timestamp, and on the first scan, the
  assertion does not fail.
\<close>

theorem scan_assertion:
  "(firstScanDone s \<and> now \<le> monotonicMs (host s) \<longrightarrow>
      Machine_scanTables hk d now s = Inl Assertion_failed) \<and>
   (firstScanDone s \<and> monotonicMs (host s) < now \<longrightarrow>
      Machine_scanTables hk d now s \<noteq> Inl Assertion_failed) \<and>
   (\<not> firstScanDone s \<longrightarrow> Machine_scanTables hk d now s \<noteq> Inl Assertion_failed)"
  by (auto simp add: Machine_scanTables_def Let_def split: option.splits)


lemma acc_rows0:
  "Machine_populateAccumulatedFields 3 rows0 =
     Some [\<lparr>id' = 1, parent = 0, m_resident = 150, m_accResident = 150\<rparr>,
           \<lparr>id' = 2, parent = 1, m_resident = 50, m_accResident = 50\<rparr>]"
  unfolding rows0_def by code_simp

lemma scan_state0: "Machine_scanTables hooks0 3 now state0 = Inr state1"
  by (simp add: Machine_scanTables_def state0_def state1_def hooks0_def machine0_def scan_table_def
      run_hook_def Let_def acc_rows0)

lemma scan_state1:
  "1 < now \<Longrightarrow> Machine_scanTables hooks0 3 now state1 =
     Inr (state1\<lparr>host := (host state1)\<lparr>prevMonotonicMs := 1, monotonicMs := now\<rparr>,
           calls := calls state1 @ [Platform_gettime_monotonic, Row_resetFieldWidths, Table_scanPrepare 5, Table_scanIterate 5,
                   Table_scanCleanup 5, Row_setUidColumnWidth 1000]\<rparr>)"
  by (simp add: Machine_scanTables_def state1_def hooks0_def machine0_def scan_table_def
      run_hook_def Let_def acc_rows0)

text \<open>After the first cycle the logical time is 1: the timestamp 1 fails, 2 does not.\<close>

theorem scan_assertion_witness:
  "Machine_scanTables hooks0 3 1 state1 = Inl Assertion_failed \<and>
   Machine_scanTables hooks0 3 2 state1 \<noteq> Inl Assertion_failed \<and>
   Machine_scanTables hooks0 3 0 state0 \<noteq> Inl Assertion_failed"
  using scan_assertion [of state1 1 hooks0 3] scan_assertion [of state1 2 hooks0 3]
    scan_assertion [of state0 0 hooks0 3]
  by (simp add: state1_def state0_def)

section \<open>Tree accumulation: termination\<close>

lemma static_update_acc:
  "map static (rows[cur := (rows ! cur)\<lparr>m_accResident := x\<rparr>]) = map static rows"
proof (cases "cur < length rows")
  case True
  then have "static ((rows ! cur)\<lparr>m_accResident := x\<rparr>) = map static rows ! cur"
    by (simp add: static_def)
  then show ?thesis by (simp add: map_update)
next
  case False
  then show ?thesis by (simp add: not_less list_update_beyond)
qed

lemma map_static_length: "map static rows' = map static rows \<Longrightarrow> length rows' = length rows"
  by (metis length_map)

lemma map_static_nth:
  assumes "map static rows' = map static rows" "j < length rows"
  shows "id' (rows' ! j) = id' (rows ! j)" "parent (rows' ! j) = parent (rows ! j)"
    "m_resident (rows' ! j) = m_resident (rows ! j)"
proof -
  have "length rows' = length rows" using assms(1) by (rule map_static_length)
  then have "static (rows' ! j) = static (rows ! j)"
    using assms by (metis nth_map)
  then show "id' (rows' ! j) = id' (rows ! j)" "parent (rows' ! j) = parent (rows ! j)"
    "m_resident (rows' ! j) = m_resident (rows ! j)"
    by (simp_all add: static_def)
qed

lemma finite_unset: "finite (unset rows)"
  by (simp add: unset_def)

lemma unset_update:
  assumes "cur < length rows" "x \<noteq> - 1"
  shows "unset (rows[cur := (rows ! cur)\<lparr>m_accResident := x\<rparr>]) = unset rows - {cur}"
  using assms by (auto simp add: unset_def nth_list_update)

lemma inv_nonneg_update:
  assumes "inv_nonneg rows" "- 1 \<le> x"
  shows "inv_nonneg (rows[cur := (rows ! cur)\<lparr>m_accResident := x\<rparr>])"
proof (cases "cur < length rows")
  case True
  have "0 \<le> m_resident (rows ! cur)" using True assms(1) by (simp add: inv_nonneg_def)
  then show ?thesis
    using assms True unfolding inv_nonneg_def
    by (auto dest!: set_update_subset_insert [THEN subsetD])
next
  case False
  then have "rows[cur := (rows ! cur)\<lparr>m_accResident := x\<rparr>] = rows" by (simp add: not_less list_update_beyond)
  then show ?thesis using assms by simp
qed

lemma inv_nonneg_nth:
  "inv_nonneg rows \<Longrightarrow> j < length rows \<Longrightarrow> 0 \<le> m_resident (rows ! j) \<and> - 1 \<le> m_accResident (rows ! j)"
  by (simp add: inv_nonneg_def)

lemma populateAcc_loop_nonneg:
  assumes call: "returns_nonneg n call d"
  shows "inv_nonneg rows \<Longrightarrow> length rows = n \<Longrightarrow> cur < n \<Longrightarrow> cur \<notin> unset rows \<Longrightarrow>
         card (unset rows) < d \<Longrightarrow> set is \<subseteq> {..<n} \<Longrightarrow>
         \<exists>rows'. populateAcc_loop call cur is rows = Some rows' \<and> inv_nonneg rows' \<and>
           map static rows' = map static rows \<and> unset rows' \<subseteq> unset rows \<and>
           (\<forall>k < n. k \<noteq> cur \<and> k \<notin> unset rows \<longrightarrow> rows' ! k = rows ! k)"
proof (induction "is" arbitrary: rows)
  case Nil
  then show ?case by simp
next
  case (Cons i "is")
  show ?case
  proof (cases "i \<noteq> cur \<and> parent (rows ! i) = id' (rows ! cur)")
    case False
    then have "populateAcc_loop call cur (i # is) rows = populateAcc_loop call cur is rows"
      by auto
    then show ?thesis using Cons by simp
  next
    case True
    have i: "i < n" using Cons.prems by simp
    from call [unfolded returns_nonneg_def, rule_format, of rows i] Cons.prems i
    obtain v rows1 where
      c: "call rows i = Some (v, rows1)" and v: "0 \<le> v" and inv1: "inv_nonneg rows1" and
      st1: "map static rows1 = map static rows" and un1: "unset rows1 \<subseteq> unset rows - {i}" and
      fr1: "\<forall>k < n. k \<notin> unset rows \<longrightarrow> rows1 ! k = rows ! k"
      by blast
    have len1: "length rows1 = n" using st1 Cons.prems by (metis length_map)
    let ?x = "m_accResident (rows1 ! cur) + v"
    let ?rows2 = "rows1[cur := (rows1 ! cur)\<lparr>m_accResident := ?x\<rparr>]"
    have cur1: "cur \<notin> unset rows1" using un1 Cons.prems by auto
    then have "m_accResident (rows1 ! cur) \<noteq> - 1" using len1 Cons.prems by (simp add: unset_def)
    moreover have "- 1 \<le> m_accResident (rows1 ! cur)"
      using inv_nonneg_nth [OF inv1, of cur] len1 Cons.prems by simp
    ultimately have x: "0 \<le> ?x" using v by simp
    have inv2: "inv_nonneg ?rows2" using inv1 x by (intro inv_nonneg_update) simp_all
    have st2: "map static ?rows2 = map static rows" using st1 by (simp add: static_update_acc)
    have un2: "unset ?rows2 = unset rows1 - {cur}"
      using x len1 Cons.prems by (intro unset_update) simp_all
    then have un2': "unset ?rows2 \<subseteq> unset rows" using un1 by auto
    have card2: "card (unset ?rows2) < d"
      using un2' Cons.prems(5) card_mono [OF finite_unset un2'] by simp
    have cur2: "cur \<notin> unset ?rows2" using un2 by simp
    from Cons.IH [OF inv2 _ Cons.prems(3) cur2 card2] len1 Cons.prems(6)
    obtain rows' where
      r: "populateAcc_loop call cur is ?rows2 = Some rows'" "inv_nonneg rows'"
      "map static rows' = map static ?rows2" "unset rows' \<subseteq> unset ?rows2" and
      fr: "\<forall>k < n. k \<noteq> cur \<and> k \<notin> unset ?rows2 \<longrightarrow> rows' ! k = ?rows2 ! k"
      by auto
    have "rows' ! k = rows ! k" if k: "k < n" "k \<noteq> cur" "k \<notin> unset rows" for k
    proof -
      have "k \<notin> unset ?rows2" using k(3) un2' by auto
      then have "rows' ! k = ?rows2 ! k" using fr k by simp
      also have "\<dots> = rows1 ! k" using k(2) by simp
      also have "\<dots> = rows ! k" using fr1 k by simp
      finally show ?thesis .
    qed
    then show ?thesis using True c r st2 un2' by auto
  qed
qed

lemma populateAccForProcess_nonneg:
  "returns_nonneg n (\<lambda>rs i. Machine_populateAccForProcess d rs n i) d"
proof (induction d)
  case 0
  then show ?case by (simp add: returns_nonneg_def)
next
  case (Suc d)
  show ?case
    unfolding returns_nonneg_def
  proof (intro allI impI)
    fix rows cur
    assume a: "inv_nonneg rows \<and> length rows = n \<and> cur < n \<and> card (unset rows) < Suc d"
    show "\<exists>v rows'. Machine_populateAccForProcess (Suc d) rows n cur = Some (v, rows') \<and> 0 \<le> v \<and>
            inv_nonneg rows' \<and> map static rows' = map static rows \<and>
            unset rows' \<subseteq> unset rows - {cur} \<and>
            (\<forall>k < n. k \<notin> unset rows \<longrightarrow> rows' ! k = rows ! k)"
    proof (cases "m_accResident (rows ! cur) \<noteq> - 1")
      case True
      moreover have "- 1 \<le> m_accResident (rows ! cur)" using a inv_nonneg_nth by blast
      moreover have "cur \<notin> unset rows" using True by (simp add: unset_def)
      ultimately show ?thesis using a by auto
    next
      case False
      let ?rows1 = "rows[cur := (rows ! cur)\<lparr>m_accResident := m_resident (rows ! cur)\<rparr>]"
      have r: "0 \<le> m_resident (rows ! cur)" using a inv_nonneg_nth by blast
      have inv1: "inv_nonneg ?rows1" using a r by (intro inv_nonneg_update) simp_all
      have un1: "unset ?rows1 = unset rows - {cur}" using a r by (intro unset_update) simp_all
      have "cur \<in> unset rows" using False a by (simp add: unset_def)
      then have "card (unset ?rows1) < card (unset rows)"
        unfolding un1 by (rule card_Diff1_less [OF finite_unset])
      then have card1: "card (unset ?rows1) < d" using a by simp
      have cur1: "cur \<notin> unset ?rows1" using un1 by simp
      have len1: "length ?rows1 = n" and curn: "cur < n" and sub: "set [0..<n] \<subseteq> {..<n}"
        using a by auto
      from populateAcc_loop_nonneg [OF Suc inv1 len1 curn cur1 card1 sub]
      obtain rows' where
        l: "populateAcc_loop (\<lambda>rs i. Machine_populateAccForProcess d rs n i) cur [0..<n] ?rows1 = Some rows'"
        and inv': "inv_nonneg rows'" and st': "map static rows' = map static ?rows1"
        and un': "unset rows' \<subseteq> unset ?rows1"
        and fr': "\<forall>k < n. k \<noteq> cur \<and> k \<notin> unset ?rows1 \<longrightarrow> rows' ! k = ?rows1 ! k"
        by auto
      have len': "length rows' = n" using st' a by (metis length_map length_list_update)
      have cur': "cur \<notin> unset rows'" using un' cur1 by auto
      then have "m_accResident (rows' ! cur) \<noteq> - 1" using len' a by (simp add: unset_def)
      moreover have "- 1 \<le> m_accResident (rows' ! cur)"
        using inv_nonneg_nth [OF inv', of cur] len' a by simp
      ultimately have v: "0 \<le> m_accResident (rows' ! cur)" by simp
      have fr: "rows' ! k = rows ! k" if k: "k < n" "k \<notin> unset rows" for k
      proof -
        have kc: "k \<noteq> cur" using k(2) \<open>cur \<in> unset rows\<close> by auto
        then have "rows' ! k = ?rows1 ! k" using fr' k un1 by simp
        then show ?thesis using kc by simp
      qed
      have "map static rows' = map static rows" using st' by (simp add: static_update_acc)
      then show ?thesis using False l inv' v un' un1 fr by auto
    qed
  qed
qed

lemma populateAccForProcess_keeps_row:
  assumes "inv_nonneg rows" and "length rows = n" and "i < n" and "card (unset rows) < d"
    and "cur < n" and "cur \<notin> unset rows"
  shows "\<exists>v rows'. Machine_populateAccForProcess d rows n i = Some (v, rows') \<and>
           rows' ! cur = rows ! cur"
  using populateAccForProcess_nonneg [of n d, unfolded returns_nonneg_def, rule_format, of rows i]
    assms by blast

lemma populateAll_loop_nonneg:
  "inv_nonneg rows \<Longrightarrow> length rows = n \<Longrightarrow> card (unset rows) < d \<Longrightarrow> set is \<subseteq> {..<n} \<Longrightarrow>
   \<exists>rows'. populateAll_loop d n is rows = Some rows' \<and> inv_nonneg rows' \<and>
     map static rows' = map static rows \<and> unset rows' \<subseteq> unset rows - set is"
proof (induction "is" arbitrary: rows)
  case Nil
  then show ?case by simp
next
  case (Cons i "is")
  have i: "i < n" using Cons.prems by simp
  from populateAccForProcess_nonneg [of n d, unfolded returns_nonneg_def, rule_format, of rows i]
    Cons.prems i
  obtain v rows1 where
    c: "Machine_populateAccForProcess d rows n i = Some (v, rows1)" and inv1: "inv_nonneg rows1" and
    st1: "map static rows1 = map static rows" and un1: "unset rows1 \<subseteq> unset rows - {i}"
    by blast
  have len1: "length rows1 = n" using st1 Cons.prems by (metis length_map)
  have "unset rows1 \<subseteq> unset rows" using un1 by auto
  then have card1: "card (unset rows1) < d"
    using Cons.prems(3) card_mono [OF finite_unset, of "unset rows1" rows] by simp
  from Cons.IH [OF inv1 len1 card1] Cons.prems(4)
  obtain rows' where
    "populateAll_loop d n is rows1 = Some rows'" "inv_nonneg rows'"
    "map static rows' = map static rows1" "unset rows' \<subseteq> unset rows1 - set is"
    by auto
  then show ?case using c st1 un1 by auto
qed

text \<open>
  With non-negative sizes the pass over exact sums returns as soon as more nested calls
  are available than there are rows.
\<close>

lemma populateAccumulatedFields_returns:
  assumes "\<forall>p \<in> set rows. 0 \<le> m_resident p" and "length rows < d"
  shows "\<exists>rows'. Machine_populateAccumulatedFields d rows = Some rows' \<and>
           length rows' = length rows \<and> (\<forall>p \<in> set rows'. 0 \<le> m_accResident p)"
proof -
  let ?n = "length rows"
  let ?rows1 = "map (\<lambda>p. p\<lparr>m_accResident := - 1\<rparr>) rows"
  have inv1: "inv_nonneg ?rows1" using assms(1) by (simp add: inv_nonneg_def)
  have "unset ?rows1 \<subseteq> {..<?n}" by (auto simp add: unset_def)
  then have "card (unset ?rows1) \<le> ?n" using card_mono [of "{..<?n}" "unset ?rows1"] by simp
  then have card1: "card (unset ?rows1) < d" using assms(2) by simp
  have len1: "length ?rows1 = ?n" by simp
  have sub: "set [0..<?n] \<subseteq> {..<?n}" by auto
  from populateAll_loop_nonneg [OF inv1 len1 card1 sub]
  obtain rows2 where
    l: "populateAll_loop d ?n [0..<?n] ?rows1 = Some rows2" and inv2: "inv_nonneg rows2" and
    st2: "map static rows2 = map static ?rows1" and un2: "unset rows2 \<subseteq> unset ?rows1 - set [0..<?n]"
    by auto
  have len2: "length rows2 = ?n" using st2 by (metis length_map)
  have "unset rows2 = {}" using un2 by (auto simp add: unset_def)
  then have "\<forall>j < ?n. m_accResident (rows2 ! j) \<noteq> - 1" using len2 by (auto simp add: unset_def)
  moreover have "\<forall>j < ?n. - 1 \<le> m_accResident (rows2 ! j)"
    using inv_nonneg_nth [OF inv2] len2 by simp
  ultimately have "\<forall>j < ?n. 0 \<le> m_accResident (rows2 ! j)" by force
  then have "\<forall>p \<in> set rows2. 0 \<le> m_accResident p"
    using len2 by (metis in_set_conv_nth)
  then show ?thesis using l len2 by (simp add: Machine_populateAccumulatedFields_def Let_def)
qed

text \<open>
  The hypothesis on the resident sizes is needed: with the size -1 on a cycle a row looks
  untouched after it has been set, and no number of nested calls suffices.
\<close>

lemma populateAccForProcess_no_return:
  "Machine_populateAccForProcess d rows_minus 2 0 = None \<and>
   Machine_populateAccForProcess d rows_minus 2 1 = None"
proof (induction d)
  case 0
  then show ?case by simp
next
  case (Suc d)
  have u: "[0..<2] = [0, Suc 0]" by (simp add: upt_rec)
  have a: "rows_minus[0 := (rows_minus ! 0)\<lparr>m_accResident := m_resident (rows_minus ! 0)\<rparr>] = rows_minus"
    and b: "rows_minus[1 := (rows_minus ! 1)\<lparr>m_accResident := m_resident (rows_minus ! 1)\<rparr>] = rows_minus"
    by (simp_all add: rows_minus_def)
  have c: "m_accResident (rows_minus ! 0) = - 1" "m_accResident (rows_minus ! 1) = - 1"
    "parent (rows_minus ! 1) = id' (rows_minus ! 0)" "parent (rows_minus ! 0) = id' (rows_minus ! 1)"
    by (simp_all add: rows_minus_def)
  show ?case using Suc a b c by (simp add: u)
qed

lemma populateAccumulatedFields_no_return:
  "Machine_populateAccumulatedFields d rows_minus = None"
proof -
  have "map (\<lambda>p. p\<lparr>m_accResident := - 1\<rparr>) rows_minus = rows_minus"
    by (simp add: rows_minus_def)
  moreover have "length rows_minus = 2" by (simp add: rows_minus_def)
  moreover have "[0..<2] = [0, Suc 0]" by (simp add: upt_rec)
  ultimately show ?thesis
    using populateAccForProcess_no_return [of d]
    by (simp add: Machine_populateAccumulatedFields_def Let_def)
qed

section \<open>Tree accumulation: what a pass leaves unchanged\<close>

lemma populateAcc_loop_static:
  assumes "\<And>rs i v rs'. call rs i = Some (v, rs') \<Longrightarrow> map static rs' = map static rs"
  shows "populateAcc_loop call cur is rows = Some rows' \<Longrightarrow> map static rows' = map static rows"
proof (induction "is" arbitrary: rows)
  case Nil
  then show ?case by simp
next
  case (Cons i "is")
  show ?case
  proof (cases "i \<noteq> cur \<and> parent (rows ! i) = id' (rows ! cur)")
    case False
    then have "populateAcc_loop call cur (i # is) rows = populateAcc_loop call cur is rows"
      by auto
    then have "populateAcc_loop call cur is rows = Some rows'" using Cons.prems by simp
    then show ?thesis by (rule Cons.IH)
  next
    case True
    with Cons.prems obtain v rows1 where
      c: "call rows i = Some (v, rows1)" and
      l: "populateAcc_loop call cur is
            (rows1[cur := (rows1 ! cur)\<lparr>m_accResident := m_accResident (rows1 ! cur) + v\<rparr>]) = Some rows'"
      by (auto split: option.splits)
    from Cons.IH [OF l] assms [OF c] show ?thesis by (simp add: static_update_acc)
  qed
qed

lemma populateAccForProcess_static:
  "Machine_populateAccForProcess d rows n cur = Some (v, rows') \<Longrightarrow>
   map static rows' = map static rows \<and> v = m_accResident (rows' ! cur)"
proof (induction d arbitrary: rows cur v rows')
  case 0
  then show ?case by simp
next
  case (Suc d)
  show ?case
  proof (cases "m_accResident (rows ! cur) \<noteq> - 1")
    case True
    then show ?thesis using Suc.prems by auto
  next
    case False
    let ?rows1 = "rows[cur := (rows ! cur)\<lparr>m_accResident := m_resident (rows ! cur)\<rparr>]"
    from False Suc.prems have
      l: "populateAcc_loop (\<lambda>rs i. Machine_populateAccForProcess d rs n i) cur [0..<n] ?rows1 = Some rows'"
      and v: "v = m_accResident (rows' ! cur)"
      by (auto split: option.splits)
    have "map static rows' = map static ?rows1"
      using l by (rule populateAcc_loop_static [rotated]) (use Suc.IH in blast)
    then show ?thesis using v by (simp add: static_update_acc)
  qed
qed

lemma populateAll_loop_static:
  "populateAll_loop d n is rows = Some rows' \<Longrightarrow> map static rows' = map static rows"
proof (induction "is" arbitrary: rows)
  case Nil
  then show ?case by simp
next
  case (Cons i "is")
  then obtain v rows1 where
    c: "Machine_populateAccForProcess d rows n i = Some (v, rows1)" and
    l: "populateAll_loop d n is rows1 = Some rows'"
    by (auto split: option.splits)
  from Cons.IH [OF l] populateAccForProcess_static [OF c] show ?case by simp
qed

text \<open>More nested calls do not change what a call returns.\<close>

lemma populateAcc_loop_mono:
  assumes "\<And>rs i r. call rs i = Some r \<Longrightarrow> call' rs i = Some r"
  shows "populateAcc_loop call cur is rows = Some rows' \<Longrightarrow>
         populateAcc_loop call' cur is rows = Some rows'"
proof (induction "is" arbitrary: rows)
  case Nil
  then show ?case by simp
next
  case (Cons i "is")
  show ?case
  proof (cases "i \<noteq> cur \<and> parent (rows ! i) = id' (rows ! cur)")
    case False
    then have "populateAcc_loop c cur (i # is) rows = populateAcc_loop c cur is rows" for c
      by auto
    then show ?thesis using Cons by simp
  next
    case True
    with Cons.prems obtain v rows1 where
      c: "call rows i = Some (v, rows1)" and
      l: "populateAcc_loop call cur is
            (rows1[cur := (rows1 ! cur)\<lparr>m_accResident := m_accResident (rows1 ! cur) + v\<rparr>]) = Some rows'"
      by (auto split: option.splits)
    from Cons.IH [OF l] assms [OF c] True show ?thesis by simp
  qed
qed

lemma populateAccForProcess_Suc:
  "Machine_populateAccForProcess d rows n cur = Some r \<Longrightarrow>
   Machine_populateAccForProcess (Suc d) rows n cur = Some r"
proof (induction d arbitrary: rows cur r)
  case 0
  then show ?case by simp
next
  case (Suc d)
  show ?case
  proof (cases "m_accResident (rows ! cur) \<noteq> - 1")
    case True
    then show ?thesis using Suc.prems by simp
  next
    case False
    let ?rows1 = "rows[cur := (rows ! cur)\<lparr>m_accResident := m_resident (rows ! cur)\<rparr>]"
    from False Suc.prems obtain rows' where
      l: "populateAcc_loop (\<lambda>rs i. Machine_populateAccForProcess d rs n i) cur [0..<n] ?rows1 = Some rows'"
      and r: "r = (m_accResident (rows' ! cur), rows')"
      by (auto split: option.splits)
    have "populateAcc_loop (\<lambda>rs i. Machine_populateAccForProcess (Suc d) rs n i) cur [0..<n] ?rows1 = Some rows'"
      using l by (rule populateAcc_loop_mono [rotated]) (rule Suc.IH)
    then show ?thesis using False r
      by (simp del: Machine_populateAccForProcess.simps
               add: Machine_populateAccForProcess.simps(2) [of "Suc d"])
  qed
qed

lemma populateAccForProcess_mono:
  assumes "Machine_populateAccForProcess d rows n cur = Some r" and "d \<le> d'"
  shows "Machine_populateAccForProcess d' rows n cur = Some r"
  using assms(2,1)
proof (induction rule: dec_induct)
  case base
  then show ?case .
next
  case (step k)
  then show ?case by (intro populateAccForProcess_Suc) blast
qed

lemma populateAll_loop_mono:
  "populateAll_loop d n is rows = Some rows' \<Longrightarrow> d \<le> d' \<Longrightarrow>
   populateAll_loop d' n is rows = Some rows'"
proof (induction "is" arbitrary: rows)
  case Nil
  then show ?case by simp
next
  case (Cons i "is")
  then obtain v rows1 where
    c: "Machine_populateAccForProcess d rows n i = Some (v, rows1)" and
    l: "populateAll_loop d n is rows1 = Some rows'"
    by (auto split: option.splits)
  from populateAccForProcess_mono [OF c Cons.prems(2)] Cons.IH [OF l Cons.prems(2)]
  show ?case by simp
qed

lemma populateAccumulatedFields_mono:
  "Machine_populateAccumulatedFields d rows = Some rows' \<Longrightarrow> d \<le> d' \<Longrightarrow>
   Machine_populateAccumulatedFields d' rows = Some rows'"
  by (auto simp add: Machine_populateAccumulatedFields_def Let_def
      dest: populateAll_loop_mono split: option.splits)

lemma populateAccumulatedFields_Some:
  assumes "Machine_populateAccumulatedFields d rows = Some rows'"
  obtains rows2 where
    "populateAll_loop d (length rows) [0..<length rows] (map (\<lambda>p. p\<lparr>m_accResident := - 1\<rparr>) rows) = Some rows2"
    "rows' = map (\<lambda>p. p\<lparr>m_resident := m_accResident p\<rparr>) rows2"
    "length rows2 = length rows"
    "map id' rows2 = map id' rows" "map parent rows2 = map parent rows"
    "map m_resident rows2 = map m_resident rows"
proof -
  from assms obtain rows2 where
    l: "populateAll_loop d (length rows) [0..<length rows] (map (\<lambda>p. p\<lparr>m_accResident := - 1\<rparr>) rows) = Some rows2"
    and r: "rows' = map (\<lambda>p. p\<lparr>m_resident := m_accResident p\<rparr>) rows2"
    by (auto simp add: Machine_populateAccumulatedFields_def Let_def split: option.splits)
  have st: "map static rows2 = map static (map (\<lambda>p. p\<lparr>m_accResident := - 1\<rparr>) rows)"
    using l by (rule populateAll_loop_static)
  then have len: "length rows2 = length rows" by (metis length_map)
  have "\<forall>j < length rows. static (rows2 ! j) = static (rows ! j)"
  proof (intro allI impI)
    fix j assume j: "j < length rows"
    have "static (rows2 ! j) = map static rows2 ! j" using j len by simp
    also have "\<dots> = static (rows ! j)" unfolding st using j by (simp add: static_def)
    finally show "static (rows2 ! j) = static (rows ! j)" .
  qed
  then have "map id' rows2 = map id' rows" "map parent rows2 = map parent rows"
    "map m_resident rows2 = map m_resident rows"
    using len by (auto simp add: static_def list_eq_iff_nth_eq)
  with l r len show ?thesis by (rule that)
qed

lemma fold_refresh_keeps:
  "keeps_rows hk pt \<Longrightarrow> fst (fold (refresh_table hk) ts w) pt = fst w pt"
proof (induction ts arbitrary: w)
  case Nil
  then show ?case by simp
next
  case (Cons t ts)
  have "fst (refresh_table hk t w) pt = fst w pt"
    using Cons.prems unfolding keeps_rows_def by blast
  then show ?case using Cons.IH [OF Cons.prems] by simp
qed

lemma scan_accumulates:
  assumes "Machine_scanTables hk d now s = Inr s'"
  shows "processTable (host s') = processTable (host s) \<and>
         Machine_populateAccumulatedFields d
           (fst (fold (refresh_table hk) (tables (host s)) (rows_of s, 0)) (processTable (host s))) =
         Some (rows_of s' (processTable (host s')))"
proof -
  define s1 where "s1 = (if firstScanDone s
                then s\<lparr>host := (host s)\<lparr>prevMonotonicMs := monotonicMs (host s),
                                        monotonicMs := now\<rparr>,
                       calls := calls s @ [Platform_gettime_monotonic]\<rparr>
                else s\<lparr>host := (host s)\<lparr>prevMonotonicMs := 0, monotonicMs := 1\<rparr>,
                       firstScanDone := True\<rparr>)"
  define s2 where "s2 = s1\<lparr>host := (host s1)\<lparr>maxUserId := 0\<rparr>,
                       calls := calls s1 @ [Row_resetFieldWidths]\<rparr>"
  define s3 where "s3 = fold (scan_table hk) (tables (host s2)) s2"
  note f = fold_scan_table [of hk "tables (host s2)" s2, folded s3_def]
  have t2: "tables (host s2) = tables (host s)" and p2: "processTable (host s2) = processTable (host s)"
    and r2: "rows_of s2 = rows_of s" and u2: "maxUserId (host s2) = 0"
    by (simp_all add: s2_def s1_def)
  from assms obtain rs where
    rs: "Machine_populateAccumulatedFields d (rows_of s3 (processTable (host s3))) = Some rs" and
    s': "s' = s3\<lparr>rows_of := (rows_of s3)(processTable (host s3) := rs),
                          calls := calls s3 @ [Row_setUidColumnWidth (maxUserId (host s3))]\<rparr>"
    unfolding Machine_scanTables_def Let_def s1_def [symmetric] s2_def [symmetric] s3_def [symmetric]
    by (auto split: if_splits option.splits)
  have "(rows_of s3, maxUserId (host s3)) = fold (refresh_table hk) (tables (host s)) (rows_of s, 0)"
    using f t2 r2 u2 by simp
  then have w1: "rows_of s3 = fst (fold (refresh_table hk) (tables (host s)) (rows_of s, 0))"
    by (metis fst_conv)
  have p3: "processTable (host s3) = processTable (host s)" using f p2 by simp
  show ?thesis using rs s' w1 p3 by simp
qed

text \<open>
  Claim C10, as stated, fails. The first scan of the example leaves the accumulated 150
  and 50 in \<^verbatim>\<open>m_resident\<close>; accumulated again, these would give 200 and 50. In the second
  scan \<^verbatim>\<open>Table_scanIterate\<close> stores the resident sizes 100 and 50 before the accumulation
  runs, which therefore reads these and gives 150 and 50 again.
\<close>

theorem next_cycle_reads_counterexample:
  "Machine_scanTables hooks0 3 0 state0 = Inr state1 \<and>
   map m_resident (rows_of state1 5) = [150, 50] \<and>
   map_option (map m_accResident) (Machine_populateAccumulatedFields 3 (rows_of state1 5)) =
     Some [200, 50] \<and>
   (case Machine_scanTables hooks0 3 40 state1 of
      Inl e \<Rightarrow> None
    | Inr s \<Rightarrow> Some (map m_accResident (rows_of s 5))) = Some [150, 50]"
proof -
  have "map_option (map m_accResident)
          (Machine_populateAccumulatedFields 3
             [\<lparr>id' = 1, parent = 0, m_resident = 150, m_accResident = 150\<rparr>,
              \<lparr>id' = 2, parent = 1, m_resident = 50, m_accResident = 50\<rparr>]) = Some [200, 50]"
    by code_simp
  then show ?thesis
    by (simp add: scan_state0 scan_state1) (simp add: state1_def)
qed

text \<open>
  Claim C10, amended. When the accumulation pass returns, every row's \<^verbatim>\<open>m_resident\<close>
  holds the row's accumulated value, in the pass itself and in the state that a scan
  leaves; the rows, their identifiers and their parents are as before. A scan whose table
  functions leave the rows of the process table as they are accumulates over the rows
  as they were before the scan, that is, over the accumulated values of the scan before.
\<close>

theorem populateAccumulatedFields_overwrites:
  "(Machine_populateAccumulatedFields d rows = Some rows' \<longrightarrow>
      length rows' = length rows \<and> map id' rows' = map id' rows \<and>
      map parent rows' = map parent rows \<and>
      map m_resident rows' = map m_accResident rows') \<and>
   (Machine_scanTables hk d now s = Inr s' \<longrightarrow>
      map m_resident (rows_of s' (processTable (host s'))) =
      map m_accResident (rows_of s' (processTable (host s'))) \<and>
      (keeps_rows hk (processTable (host s)) \<longrightarrow>
         Machine_populateAccumulatedFields d (rows_of s (processTable (host s))) =
         Some (rows_of s' (processTable (host s')))))"
proof (rule conjI; rule impI)
  assume a: "Machine_populateAccumulatedFields d rows = Some rows'"
  show "length rows' = length rows \<and> map id' rows' = map id' rows \<and>
      map parent rows' = map parent rows \<and> map m_resident rows' = map m_accResident rows'"
    using a by (rule populateAccumulatedFields_Some) (simp add: comp_def)
next
  assume "Machine_scanTables hk d now s = Inr s'"
  then have acc: "Machine_populateAccumulatedFields d
           (fst (fold (refresh_table hk) (tables (host s)) (rows_of s, 0)) (processTable (host s))) =
         Some (rows_of s' (processTable (host s')))"
    by (simp add: scan_accumulates)
  have 1: "map m_resident (rows_of s' (processTable (host s'))) =
      map m_accResident (rows_of s' (processTable (host s')))"
    using acc by (rule populateAccumulatedFields_Some) (simp add: comp_def)
  have 2: "Machine_populateAccumulatedFields d (rows_of s (processTable (host s))) =
         Some (rows_of s' (processTable (host s')))"
    if "keeps_rows hk (processTable (host s))"
    using acc fold_refresh_keeps [OF that] by simp
  from 1 2 show "map m_resident (rows_of s' (processTable (host s'))) =
      map m_accResident (rows_of s' (processTable (host s'))) \<and>
      (keeps_rows hk (processTable (host s)) \<longrightarrow>
         Machine_populateAccumulatedFields d (rows_of s (processTable (host s))) =
         Some (rows_of s' (processTable (host s'))))"
    by blast
qed

text \<open>
  The first scan of the example leaves 150 and 50 in \<^verbatim>\<open>m_resident\<close>; a second scan with
  table functions that do nothing accumulates over these and leaves 200 and 50.
\<close>

theorem populateAccumulatedFields_overwrites_witness:
  "map m_resident (the (Machine_populateAccumulatedFields 3 rows0)) = [150, 50] \<and>
   map m_accResident (the (Machine_populateAccumulatedFields 3 rows0)) = [150, 50] \<and>
   map m_resident (rows_of state1 5) = [150, 50] \<and>
   map m_accResident (rows_of state1 5) = [150, 50] \<and>
   (\<exists>s'. Machine_scanTables hooks_idle 3 40 state1 = Inr s' \<and>
      Machine_populateAccumulatedFields 3 (rows_of state1 5) = Some (rows_of s' 5) \<and>
      map m_resident (rows_of s' 5) = map m_accResident (rows_of s' 5))"
proof -
  have p: "processTable (host state1) = 5" by (simp add: state1_def)
  have 1: "map m_resident (the (Machine_populateAccumulatedFields 3 rows0)) = [150, 50] \<and>
   map m_accResident (the (Machine_populateAccumulatedFields 3 rows0)) = [150, 50] \<and>
   map m_resident (rows_of state1 5) = [150, 50] \<and>
   map m_accResident (rows_of state1 5) = [150, 50]"
    using populateAccumulatedFields_overwrites [of 3 rows0 _ hooks0 0 state0 state1]
      acc_rows0 scan_state0 [of 0] p
    by (simp add: state1_def)
  have k: "keeps_rows hooks_idle (processTable (host state1))"
    by (simp add: keeps_rows_def refresh_table_def hooks_idle_def)
  have "Machine_populateAccumulatedFields 3
             [\<lparr>id' = 1, parent = 0, m_resident = 150, m_accResident = 150\<rparr>,
              \<lparr>id' = 2, parent = 1, m_resident = 50, m_accResident = 50\<rparr>] \<noteq> None"
    by code_simp
  then have "\<exists>s'. Machine_scanTables hooks_idle 3 40 state1 = Inr s'"
    by (auto simp add: Machine_scanTables_def state1_def hooks_idle_def scan_table_def
        run_hook_def Let_def)
  then obtain s' where s': "Machine_scanTables hooks_idle 3 40 state1 = Inr s'" ..
  have p': "processTable (host s') = 5" using scan_accumulates [OF s'] p by simp
  have 2: "Machine_populateAccumulatedFields 3 (rows_of state1 5) = Some (rows_of s' 5) \<and>
      map m_resident (rows_of s' 5) = map m_accResident (rows_of s' 5)"
    using populateAccumulatedFields_overwrites [of 3 rows0 _ hooks_idle 40 state1 s'] s' k p p'
    by simp
  from 1 2 s' show ?thesis by blast
qed

section \<open>The scan cycle: when a scan returns, and what it has done\<close>








section \<open>Tree accumulation: rows met again, and a second pass\<close>

text \<open>
  Claim C3, as stated, fails. On \<open>rows_cycle3\<close> the accumulation of row 1 first adds the
  10 of row 3 and then descends into row 2, which finds row 1 as its child while row 1 is
  in progress. Row 1 contributes the 11 it holds at that moment, and row 2 ends with 111;
  with a contribution of the resident size 1 of row 1 alone it would end with 101.
\<close>

theorem in_progress_contribution_counterexample:
  "map_option (map m_accResident) (Machine_populateAccumulatedFields 4 rows_cycle3) =
     Some [122, 10, 111] \<and>
   m_resident (rows_cycle3 ! 2) + m_resident (rows_cycle3 ! 0) = 101"
  unfolding rows_cycle3_def by code_simp

text \<open>
  Claim C4 fails on the code. The first pass over \<open>rows0\<close> accumulates 150 and 50 and
  stores them as the resident sizes; a second pass over its result accumulates 200 for the
  parent.
\<close>

theorem populateAccumulatedFields_twice:
  "map_option (map m_accResident) (Machine_populateAccumulatedFields 3 rows0) = Some [150, 50] \<and>
   map_option (map m_accResident)
     (Option.bind (Machine_populateAccumulatedFields 3 rows0) (Machine_populateAccumulatedFields 3)) =
     Some [200, 50]"
  unfolding rows0_def by code_simp

section \<open>The child relation of a row set\<close>

lemma child_idx_bound: "(i, j) \<in> child_idx base \<Longrightarrow> i < length base \<and> j < length base"
  by (simp add: child_idx_def)

lemma finite_child_idx: "finite (child_idx base)"
proof (rule finite_subset)
  show "child_idx base \<subseteq> {..<length base} \<times> {..<length base}"
    by (auto simp add: child_idx_def)
qed simp

lemma child_idx_parent_graph:
  "(i, j) \<in> child_idx base \<Longrightarrow> (id' (base ! i), id' (base ! j)) \<in> parent_graph base"
  by (force simp add: child_idx_def parent_graph_def)

lemma child_idx_trancl_parent_graph:
  "(i, j) \<in> (child_idx base)\<^sup>+ \<Longrightarrow> (id' (base ! i), id' (base ! j)) \<in> (parent_graph base)\<^sup>+"
proof (induction rule: trancl_induct)
  case (base j)
  then show ?case by (blast intro: child_idx_parent_graph)
next
  case (step j k)
  then show ?case by (blast intro: child_idx_parent_graph trancl_into_trancl)
qed

lemma acyclic_child_idx:
  assumes "acyclic (parent_graph base)"
  shows "acyclic (child_idx base)"
proof (rule acyclicI, intro allI notI)
  fix i assume "(i, i) \<in> (child_idx base)\<^sup>+"
  then have "(id' (base ! i), id' (base ! i)) \<in> (parent_graph base)\<^sup>+"
    by (rule child_idx_trancl_parent_graph)
  with assms show False by (simp add: acyclic_def)
qed

lemma no_self_parent:
  assumes "acyclic (parent_graph base)" and "j < length base"
  shows "parent (base ! j) \<noteq> id' (base ! j)"
proof
  assume "parent (base ! j) = id' (base ! j)"
  then have "(id' (base ! j), id' (base ! j)) \<in> parent_graph base"
    using assms(2) by (force simp add: parent_graph_def)
  with assms(1) show False by (auto simp add: acyclic_def)
qed

lemma below_bound: "below base i \<subseteq> {..<length base}"
proof
  fix k assume "k \<in> below base i"
  then have "(i, k) \<in> (child_idx base)\<^sup>+" by (simp add: below_def)
  then obtain j where "(j, k) \<in> child_idx base" by (blast elim: tranclE)
  then show "k \<in> {..<length base}" by (simp add: child_idx_def)
qed

lemma finite_below: "finite (below base i)"
  using below_bound finite_lessThan by (rule finite_subset)

lemma not_in_below: "acyclic (child_idx base) \<Longrightarrow> i \<notin> below base i"
  by (simp add: below_def acyclic_def)

lemma child_in_below: "(i, c) \<in> child_idx base \<Longrightarrow> c \<in> below base i"
  by (auto simp add: below_def)

lemma cone_child_below:
  assumes "(i, c) \<in> child_idx base"
  shows "cone base c \<subseteq> below base i"
  using assms by (auto simp add: cone_def below_def intro: trancl_trans)

lemma cone_child_subset: "(i, c) \<in> child_idx base \<Longrightarrow> cone base c \<subseteq> cone base i"
  using cone_child_below by (fastforce simp add: cone_def)

lemma parent_not_in_cone_child:
  assumes "acyclic (child_idx base)" and "(i, c) \<in> child_idx base"
  shows "i \<notin> cone base c"
  using cone_child_below [OF assms(2)] not_in_below [OF assms(1), of i] by auto

lemma card_below_child:
  assumes "acyclic (child_idx base)" and "(i, c) \<in> child_idx base"
  shows "card (below base c) < card (below base i)"
proof (rule psubset_card_mono [OF finite_below])
  have "below base c \<subseteq> below base i"
    using cone_child_below [OF assms(2)] by (auto simp add: cone_def)
  moreover have "c \<in> below base i" using assms(2) by (rule child_in_below)
  moreover have "c \<notin> below base c" using assms(1) by (rule not_in_below)
  ultimately show "below base c \<subset> below base i" by blast
qed

lemma card_below_less:
  assumes "acyclic (child_idx base)" and "i < length base"
  shows "card (below base i) < length base"
proof -
  have "below base i \<subseteq> {..<length base} - {i}"
    using below_bound [of base i] not_in_below [OF assms(1), of i] by auto
  then have "card (below base i) \<le> card ({..<length base} - {i})"
    by (intro card_mono) simp_all
  also have "\<dots> < length base" using assms(2) by (simp add: card_Diff_singleton_if)
  finally show ?thesis .
qed

lemma subtree_total_unfold:
  assumes "acyclic (child_idx base)"
  shows "subtree_total base j =
           m_resident (base ! j) + (\<Sum>c | (j, c) \<in> child_idx base. subtree_total base c)"
proof -
  have w: "wf ((child_idx base)\<inverse>)"
    using finite_child_idx assms by (rule finite_acyclic_wf_converse)
  have "subtree_total base j =
          m_resident (base ! j) +
          (\<Sum>c | (j, c) \<in> child_idx base. cut (subtree_total base) ((child_idx base)\<inverse>) j c)"
    unfolding subtree_total_def by (subst wfrec [OF w]) (rule refl)
  also have "(\<Sum>c | (j, c) \<in> child_idx base. cut (subtree_total base) ((child_idx base)\<inverse>) j c) =
             (\<Sum>c | (j, c) \<in> child_idx base. subtree_total base c)"
    by (rule sum.cong) (simp_all add: cut_apply)
  finally show ?thesis .
qed

section \<open>Tree accumulation without cycles\<close>

lemma loop_inv_skip:
  assumes "loop_inv base rows cur rc D" and "(cur, i) \<notin> child_idx base"
  shows "loop_inv base rows cur rc (insert i D)"
proof -
  have "{k. (cur, k) \<in> child_idx base \<and> k \<in> insert i D} = {k. (cur, k) \<in> child_idx base \<and> k \<in> D}"
    using assms(2) by auto
  then show ?thesis using assms(1) by (simp add: loop_inv_def)
qed

lemma loop_inv_child:
  assumes inv: "loop_inv base rows cur rc D"
    and ac: "acyclic (child_idx base)"
    and ch: "(cur, i) \<in> child_idx base" and iD: "i \<notin> D"
    and st2: "map static rows2 = map static base"
    and fr2: "\<forall>k < length base. k \<notin> cone base i \<longrightarrow> rows2 ! k = rc ! k"
    and co2: "\<forall>k \<in> cone base i. m_accResident (rows2 ! k) = - 1 \<or>
                                  m_accResident (rows2 ! k) = subtree_total base k"
    and ke2: "\<forall>k < length base. m_accResident (rc ! k) = subtree_total base k \<longrightarrow>
                                 m_accResident (rows2 ! k) = subtree_total base k"
  shows "loop_inv base rows cur
           (rows2[cur := (rows2 ! cur)\<lparr>m_accResident :=
                      m_accResident (rows2 ! cur) + subtree_total base i\<rparr>])
           (insert i D)"
proof -
  let ?rows3 = "rows2[cur := (rows2 ! cur)\<lparr>m_accResident :=
                      m_accResident (rows2 ! cur) + subtree_total base i\<rparr>]"
  have cur: "cur < length base" and i: "i < length base" using ch by (simp_all add: child_idx_def)
  have len2: "length rows2 = length base" using st2 by (rule map_static_length)
  have cur_i: "cur \<notin> cone base i" using ac ch by (rule parent_not_in_cone_child)
  have sub: "cone base i \<subseteq> below base cur" using ch by (rule cone_child_below)
  have nb: "cur \<notin> below base cur" using ac by (rule not_in_below)
  have other: "?rows3 ! k = rows2 ! k" if "k \<noteq> cur" for k using that by simp
  have "rows2 ! cur = rc ! cur" using fr2 cur cur_i by simp
  then have a3: "m_accResident (?rows3 ! cur) = m_accResident (rc ! cur) + subtree_total base i"
    using cur len2 by simp
  have fin: "finite {k. (cur, k) \<in> child_idx base \<and> k \<in> D}"
    by (rule finite_subset [of _ "{..<length base}"]) (auto simp add: child_idx_def)
  have "{k. (cur, k) \<in> child_idx base \<and> k \<in> insert i D} =
        insert i {k. (cur, k) \<in> child_idx base \<and> k \<in> D}"
    using ch by auto
  then have s: "(\<Sum>k | (cur, k) \<in> child_idx base \<and> k \<in> insert i D. subtree_total base k) =
        subtree_total base i + (\<Sum>k | (cur, k) \<in> child_idx base \<and> k \<in> D. subtree_total base k)"
    using fin iD by simp
  have c1: "map static ?rows3 = map static base" using st2 by (simp add: static_update_acc)
  have c2: "m_accResident (?rows3 ! cur) =
        m_resident (base ! cur) + (\<Sum>k | (cur, k) \<in> child_idx base \<and> k \<in> insert i D. subtree_total base k)"
    using a3 s inv by (simp add: loop_inv_def)
  have c3: "m_accResident (?rows3 ! k) = - 1 \<or> m_accResident (?rows3 ! k) = subtree_total base k"
    if k: "k \<in> below base cur" for k
  proof -
    have kc: "k \<noteq> cur" using k nb by auto
    have kn: "k < length base" using k below_bound by blast
    show ?thesis
    proof (cases "k \<in> cone base i")
      case True
      then show ?thesis using co2 other [OF kc] by simp
    next
      case False
      then have "rows2 ! k = rc ! k" using fr2 kn by simp
      then show ?thesis using inv k other [OF kc] by (simp add: loop_inv_def)
    qed
  qed
  have c4: "?rows3 ! k = rows ! k" if "k < length base" "k \<notin> cone base cur" for k
  proof -
    have kc: "k \<noteq> cur" using that by (auto simp add: cone_def)
    have "k \<notin> cone base i" using that sub by (auto simp add: cone_def)
    then have "rows2 ! k = rc ! k" using fr2 that by simp
    then show ?thesis using inv that other [OF kc] by (simp add: loop_inv_def)
  qed
  have c5: "m_accResident (?rows3 ! k) = subtree_total base k"
    if "k < length base" "k \<noteq> cur" "m_accResident (rows ! k) = subtree_total base k" for k
  proof -
    have "m_accResident (rc ! k) = subtree_total base k" using inv that by (simp add: loop_inv_def)
    then have "m_accResident (rows2 ! k) = subtree_total base k" using ke2 that by simp
    then show ?thesis using other [OF that(2)] by simp
  qed
  show ?thesis
    unfolding loop_inv_def using c1 c2 c3 c4 c5 by blast
qed

lemma populateAcc_loop_total:
  assumes call: "returns_total base call d"
    and ac: "acyclic (child_idx base)"
    and cur: "cur < length base"
    and card: "card (below base cur) \<le> d"
  shows "loop_inv base rows cur rc D \<Longrightarrow> distinct is \<Longrightarrow> set is \<subseteq> {..<length base} \<Longrightarrow>
         set is \<inter> D = {} \<Longrightarrow>
         \<exists>rows'. populateAcc_loop call cur is rc = Some rows' \<and>
                 loop_inv base rows cur rows' (D \<union> set is)"
proof (induction "is" arbitrary: rc D)
  case Nil
  then show ?case by simp
next
  case (Cons i "is")
  have i: "i < length base" and iD: "i \<notin> D" and dis: "distinct is" and "i \<notin> set is"
    and sub: "set is \<subseteq> {..<length base}" and int: "set is \<inter> insert i D = {}"
    using Cons.prems by auto
  have st: "map static rc = map static base" using Cons.prems(1) by (simp add: loop_inv_def)
  have same: "parent (rc ! i) = parent (base ! i)" "id' (rc ! cur) = id' (base ! cur)"
    using map_static_nth [OF st] i cur by simp_all
  have un: "D \<union> set (i # is) = insert i D \<union> set is" by simp
  show ?case
  proof (cases "(cur, i) \<in> child_idx base")
    case False
    then have "\<not> (i \<noteq> cur \<and> parent (rc ! i) = id' (rc ! cur))"
      using same i cur by (auto simp add: child_idx_def)
    then have eq: "populateAcc_loop call cur (i # is) rc = populateAcc_loop call cur is rc"
      by auto
    have "loop_inv base rows cur rc (insert i D)"
      using Cons.prems(1) False by (rule loop_inv_skip)
    from Cons.IH [OF this dis sub int] show ?thesis unfolding eq un .
  next
    case True
    then have t: "i \<noteq> cur \<and> parent (rc ! i) = id' (rc ! cur)"
      using same by (auto simp add: child_idx_def)
    have cd: "card (below base i) < d"
      using card_below_child [OF ac True] card by simp
    have pre: "\<forall>k \<in> cone base i. m_accResident (rc ! k) = - 1 \<or>
                                   m_accResident (rc ! k) = subtree_total base k"
      using Cons.prems(1) cone_child_below [OF True] by (auto simp add: loop_inv_def)
    from call [unfolded returns_total_def, rule_format, of rc i] st i cd pre
    obtain rows2 where
      c: "call rc i = Some (subtree_total base i, rows2)" and
      st2: "map static rows2 = map static base" and
      fr2: "\<forall>k < length base. k \<notin> cone base i \<longrightarrow> rows2 ! k = rc ! k" and
      co2: "\<forall>k \<in> cone base i. m_accResident (rows2 ! k) = - 1 \<or>
                                  m_accResident (rows2 ! k) = subtree_total base k" and
      ke2: "\<forall>k < length base. m_accResident (rc ! k) = subtree_total base k \<longrightarrow>
                                 m_accResident (rows2 ! k) = subtree_total base k"
      by blast
    let ?rows3 = "rows2[cur := (rows2 ! cur)\<lparr>m_accResident :=
                      m_accResident (rows2 ! cur) + subtree_total base i\<rparr>]"
    have eq: "populateAcc_loop call cur (i # is) rc = populateAcc_loop call cur is ?rows3"
      using t c by simp
    have "loop_inv base rows cur ?rows3 (insert i D)"
      using Cons.prems(1) ac True iD st2 fr2 co2 ke2 by (rule loop_inv_child)
    from Cons.IH [OF this dis sub int] show ?thesis unfolding eq un .
  qed
qed

lemma populateAccForProcess_total:
  assumes ac: "acyclic (child_idx base)"
  shows "returns_total base (\<lambda>rs i. Machine_populateAccForProcess d rs (length base) i) d"
proof (induction d)
  case 0
  then show ?case by (simp add: returns_total_def)
next
  case (Suc d)
  show ?case
    unfolding returns_total_def
  proof (intro allI impI, elim conjE)
    fix rows cur
    assume st: "map static rows = map static base" and cur: "cur < length base"
      and cd: "card (below base cur) < Suc d"
      and pre: "\<forall>k \<in> cone base cur. m_accResident (rows ! k) = - 1 \<or>
                                     m_accResident (rows ! k) = subtree_total base k"
    let ?goal = "\<exists>rows'. Machine_populateAccForProcess (Suc d) rows (length base) cur =
                   Some (subtree_total base cur, rows') \<and>
           map static rows' = map static base \<and>
           m_accResident (rows' ! cur) = subtree_total base cur \<and>
           (\<forall>k < length base. k \<notin> cone base cur \<longrightarrow> rows' ! k = rows ! k) \<and>
           (\<forall>k \<in> cone base cur. m_accResident (rows' ! k) = - 1 \<or>
                                  m_accResident (rows' ! k) = subtree_total base k) \<and>
           (\<forall>k < length base. m_accResident (rows ! k) = subtree_total base k \<longrightarrow>
                               m_accResident (rows' ! k) = subtree_total base k)"
    show ?goal
    proof (cases "m_accResident (rows ! cur) \<noteq> - 1")
      case True
      moreover have "m_accResident (rows ! cur) = subtree_total base cur"
        using pre True by (simp add: cone_def)
      ultimately show ?thesis using st pre by simp
    next
      case False
      let ?rows1 = "rows[cur := (rows ! cur)\<lparr>m_accResident := m_resident (rows ! cur)\<rparr>]"
      have len: "length rows = length base" using st by (rule map_static_length)
      have raw: "m_resident (rows ! cur) = m_resident (base ! cur)"
        using map_static_nth [OF st cur] by simp
      have nb: "cur \<notin> below base cur" using ac by (rule not_in_below)
      have inv1: "loop_inv base rows cur ?rows1 {}"
        unfolding loop_inv_def
      proof (intro conjI)
        show "map static ?rows1 = map static base" using st by (simp add: static_update_acc)
        show "m_accResident (?rows1 ! cur) =
          m_resident (base ! cur) + (\<Sum>k | (cur, k) \<in> child_idx base \<and> k \<in> {}. subtree_total base k)"
          using cur len raw by simp
        show "\<forall>k \<in> below base cur. m_accResident (?rows1 ! k) = - 1 \<or>
                              m_accResident (?rows1 ! k) = subtree_total base k"
        proof
          fix k assume k: "k \<in> below base cur"
          then have "k \<noteq> cur" using nb by auto
          then have "?rows1 ! k = rows ! k" by simp
          then show "m_accResident (?rows1 ! k) = - 1 \<or>
                     m_accResident (?rows1 ! k) = subtree_total base k"
            using pre k by (simp add: cone_def)
        qed
        show "\<forall>k < length base. k \<notin> cone base cur \<longrightarrow> ?rows1 ! k = rows ! k"
          by (auto simp add: cone_def)
        show "\<forall>k < length base. k \<noteq> cur \<longrightarrow> m_accResident (rows ! k) = subtree_total base k \<longrightarrow>
                          m_accResident (?rows1 ! k) = subtree_total base k"
          by simp
      qed
      have cd': "card (below base cur) \<le> d" using cd by simp
      have dist: "distinct [0..<length base]" and sub: "set [0..<length base] \<subseteq> {..<length base}"
        and int: "set [0..<length base] \<inter> {} = {}"
        by auto
      from populateAcc_loop_total [OF Suc ac cur cd' inv1 dist sub int]
      obtain rows' where
        l: "populateAcc_loop (\<lambda>rs i. Machine_populateAccForProcess d rs (length base) i) cur
              [0..<length base] ?rows1 = Some rows'" and
        inv': "loop_inv base rows cur rows' ({} \<union> set [0..<length base])"
        by blast
      have "{k. (cur, k) \<in> child_idx base \<and> k \<in> {} \<union> set [0..<length base]} =
            {k. (cur, k) \<in> child_idx base}"
        by (auto simp add: child_idx_def)
      then have tot: "m_accResident (rows' ! cur) = subtree_total base cur"
        using inv' subtree_total_unfold [OF ac, of cur] by (simp add: loop_inv_def)
      have r: "Machine_populateAccForProcess (Suc d) rows (length base) cur =
                 Some (subtree_total base cur, rows')"
        using False l tot by simp
      have p4: "\<forall>k \<in> cone base cur. m_accResident (rows' ! k) = - 1 \<or>
                                  m_accResident (rows' ! k) = subtree_total base k"
        using inv' tot by (auto simp add: loop_inv_def cone_def)
      have p5: "\<forall>k < length base. m_accResident (rows ! k) = subtree_total base k \<longrightarrow>
                               m_accResident (rows' ! k) = subtree_total base k"
        using inv' tot unfolding loop_inv_def by metis
      show ?thesis using r tot p4 p5 inv' unfolding loop_inv_def by blast
    qed
  qed
qed

lemma populateAll_loop_total:
  assumes ac: "acyclic (child_idx base)" and d: "length base \<le> d"
  shows "map static rows = map static base \<Longrightarrow>
         \<forall>k < length base. m_accResident (rows ! k) = - 1 \<or>
                            m_accResident (rows ! k) = subtree_total base k \<Longrightarrow>
         \<forall>k \<in> D. m_accResident (rows ! k) = subtree_total base k \<Longrightarrow>
         set is \<subseteq> {..<length base} \<Longrightarrow> D \<subseteq> {..<length base} \<Longrightarrow>
         \<exists>rows'. populateAll_loop d (length base) is rows = Some rows' \<and>
           map static rows' = map static base \<and>
           (\<forall>k \<in> D \<union> set is. m_accResident (rows' ! k) = subtree_total base k)"
proof (induction "is" arbitrary: rows D)
  case Nil
  then show ?case by simp
next
  case (Cons i "is")
  have i: "i < length base" and sub: "set is \<subseteq> {..<length base}" using Cons.prems by simp_all
  have cd: "card (below base i) < d" using card_below_less [OF ac i] d by simp
  have pre: "\<forall>k \<in> cone base i. m_accResident (rows ! k) = - 1 \<or>
                                 m_accResident (rows ! k) = subtree_total base k"
    using Cons.prems(2) i below_bound [of base i] by (auto simp add: cone_def)
  from populateAccForProcess_total [OF ac, of d, unfolded returns_total_def, rule_format, of rows i]
    Cons.prems(1) i cd pre
  obtain rows1 where
    c: "Machine_populateAccForProcess d rows (length base) i = Some (subtree_total base i, rows1)" and
    st1: "map static rows1 = map static base" and
    t1: "m_accResident (rows1 ! i) = subtree_total base i" and
    fr1: "\<forall>k < length base. k \<notin> cone base i \<longrightarrow> rows1 ! k = rows ! k" and
    co1: "\<forall>k \<in> cone base i. m_accResident (rows1 ! k) = - 1 \<or>
                                m_accResident (rows1 ! k) = subtree_total base k" and
    ke1: "\<forall>k < length base. m_accResident (rows ! k) = subtree_total base k \<longrightarrow>
                               m_accResident (rows1 ! k) = subtree_total base k"
    by blast
  have g1: "\<forall>k < length base. m_accResident (rows1 ! k) = - 1 \<or>
                            m_accResident (rows1 ! k) = subtree_total base k"
  proof (intro allI impI)
    fix k assume k: "k < length base"
    show "m_accResident (rows1 ! k) = - 1 \<or> m_accResident (rows1 ! k) = subtree_total base k"
    proof (cases "k \<in> cone base i")
      case True
      then show ?thesis using co1 by simp
    next
      case False
      then have "rows1 ! k = rows ! k" using fr1 k by simp
      then show ?thesis using Cons.prems(2) k by simp
    qed
  qed
  have d1: "\<forall>k \<in> insert i D. m_accResident (rows1 ! k) = subtree_total base k"
    using t1 ke1 Cons.prems(3,5) by auto
  have D1: "insert i D \<subseteq> {..<length base}" using i Cons.prems(5) by simp
  from Cons.IH [OF st1 g1 d1 sub D1]
  obtain rows' where
    "populateAll_loop d (length base) is rows1 = Some rows'"
    "map static rows' = map static base"
    "\<forall>k \<in> insert i D \<union> set is. m_accResident (rows' ! k) = subtree_total base k"
    by blast
  then show ?case using c by auto
qed

lemma sum_list_filter_nth:
  "sum_list (map f (filter P xs)) = (\<Sum>k | k < length xs \<and> P (xs ! k). (f (xs ! k) :: int))"
proof -
  have "sum_list (map f (filter P xs)) = sum_list (map (\<lambda>x. if P x then f x else 0) xs)"
    by (rule sum_list_map_filter')
  also have "\<dots> = (\<Sum>k = 0..<length xs. if P (xs ! k) then f (xs ! k) else 0)"
    by (simp add: sum_list_sum_nth)
  also have "\<dots> = (\<Sum>k \<in> {k \<in> {0..<length xs}. P (xs ! k)}. f (xs ! k))"
    by (rule sum.inter_filter [symmetric]) simp
  also have "{k \<in> {0..<length xs}. P (xs ! k)} = {k. k < length xs \<and> P (xs ! k)}"
    by auto
  finally show ?thesis .
qed

lemma populateAccumulatedFields_total:
  assumes ac: "acyclic (child_idx rows)" and d: "length rows \<le> d"
  shows "\<exists>rows'. Machine_populateAccumulatedFields d rows = Some rows' \<and>
           length rows' = length rows \<and> map id' rows' = map id' rows \<and>
           map parent rows' = map parent rows \<and>
           (\<forall>k < length rows. m_accResident (rows' ! k) = subtree_total rows k)"
proof -
  let ?rows1 = "map (\<lambda>p. p\<lparr>m_accResident := - 1\<rparr>) rows"
  have st1: "map static ?rows1 = map static rows" by (simp add: static_def)
  have un1: "\<forall>k < length rows. m_accResident (?rows1 ! k) = - 1 \<or>
                                m_accResident (?rows1 ! k) = subtree_total rows k"
    by simp
  have dn1: "\<forall>k \<in> {}. m_accResident (?rows1 ! k) = subtree_total rows k" by simp
  have sub: "set [0..<length rows] \<subseteq> {..<length rows}" by auto
  from populateAll_loop_total [OF ac d st1 un1 dn1 sub]
  obtain rows2 where
    l: "populateAll_loop d (length rows) [0..<length rows] ?rows1 = Some rows2" and
    st2: "map static rows2 = map static rows" and
    t: "\<forall>k \<in> {} \<union> set [0..<length rows]. m_accResident (rows2 ! k) = subtree_total rows k"
    by blast
  let ?rows' = "map (\<lambda>p. p\<lparr>m_resident := m_accResident p\<rparr>) rows2"
  have r: "Machine_populateAccumulatedFields d rows = Some ?rows'"
    using l by (simp add: Machine_populateAccumulatedFields_def Let_def)
  have len2: "length rows2 = length rows" using st2 by (rule map_static_length)
  have "map id' ?rows' = map id' rows" "map parent ?rows' = map parent rows"
    using map_static_nth [OF st2] len2 by (simp_all add: list_eq_iff_nth_eq)
  moreover have "length ?rows' = length rows" using len2 by simp
  moreover have "\<forall>k < length rows. m_accResident (?rows' ! k) = subtree_total rows k"
    using t len2 by simp
  ultimately show ?thesis using r by blast
qed

lemma children_sum:
  assumes ac: "acyclic (parent_graph rows)" and i: "i < length rows"
    and len: "length rows' = length rows" and par: "map parent rows' = map parent rows"
  shows "sum_list (map m_accResident (children_of rows' (rows ! i))) =
         (\<Sum>c | (i, c) \<in> child_idx rows. m_accResident (rows' ! c))"
proof -
  have p: "parent (rows' ! k) = parent (rows ! k)" if "k < length rows" for k
    using that len par by (metis nth_map)
  have "{k. k < length rows' \<and> parent (rows' ! k) = id' (rows ! i)} = {c. (i, c) \<in> child_idx rows}"
    using p i len no_self_parent [OF ac i] by (auto simp add: child_idx_def)
  then show ?thesis
    by (simp add: children_of_def sum_list_filter_nth)
qed

lemma roots_sum:
  assumes len: "length rows' = length rows" and par: "map parent rows' = map parent rows"
    and ids: "map id' rows' = map id' rows"
  shows "sum_list (map m_accResident (roots_of rows')) =
         (\<Sum>k | k < length rows \<and> parent (rows ! k) \<notin> id' ` set rows. m_accResident (rows' ! k))"
proof -
  have p: "parent (rows' ! k) = parent (rows ! k)" if "k < length rows" for k
    using that len par by (metis nth_map)
  have "id' ` set rows' = id' ` set rows" using ids by (metis set_map)
  moreover have "{k. k < length rows' \<and> parent (rows' ! k) \<notin> id' ` set rows} =
        {k. k < length rows \<and> parent (rows ! k) \<notin> id' ` set rows}"
    using p len by auto
  ultimately show ?thesis
    by (simp add: roots_of_def sum_list_filter_nth)
qed

text \<open>With distinct identifiers every row that is not a root is the child of one row.\<close>

lemma snd_child_idx:
  assumes ac: "acyclic (parent_graph rows)" and dist: "distinct (map id' rows)"
  shows "inj_on snd (child_idx rows)" and
    "snd ` child_idx rows = {k. k < length rows \<and> parent (rows ! k) \<in> id' ` set rows}"
proof -
  show "inj_on snd (child_idx rows)"
  proof (rule inj_onI)
    fix x y assume x: "x \<in> child_idx rows" and y: "y \<in> child_idx rows" and e: "snd x = snd y"
    obtain i c where xc: "x = (i, c)" by (cases x)
    obtain j c' where yc: "y = (j, c')" by (cases y)
    have "id' (rows ! i) = id' (rows ! j)" and i: "i < length rows" and j: "j < length rows"
      using x y e xc yc by (auto simp add: child_idx_def)
    then have "map id' rows ! i = map id' rows ! j" by simp
    moreover have "i < length (map id' rows)" "j < length (map id' rows)" using i j by simp_all
    ultimately have "i = j" using dist nth_eq_iff_index_eq by blast
    then show "x = y" using e xc yc by simp
  qed
  show "snd ` child_idx rows = {k. k < length rows \<and> parent (rows ! k) \<in> id' ` set rows}"
  proof (intro equalityI subsetI)
    fix k assume "k \<in> snd ` child_idx rows"
    then obtain i where "(i, k) \<in> child_idx rows" by auto
    then show "k \<in> {k. k < length rows \<and> parent (rows ! k) \<in> id' ` set rows}"
      by (auto simp add: child_idx_def)
  next
    fix k assume "k \<in> {k. k < length rows \<and> parent (rows ! k) \<in> id' ` set rows}"
    then have k: "k < length rows" and "parent (rows ! k) \<in> id' ` set rows" by auto
    then obtain i where i: "i < length rows" and e: "parent (rows ! k) = id' (rows ! i)"
      by (auto simp add: in_set_conv_nth)
    have "i \<noteq> k" using no_self_parent [OF ac k] e by auto
    then have "(i, k) \<in> child_idx rows" using i k e by (simp add: child_idx_def)
    then show "k \<in> snd ` child_idx rows" by force
  qed
qed

lemma roots_total:
  assumes ac: "acyclic (parent_graph rows)" and dist: "distinct (map id' rows)"
    and fp: "\<forall>k < length rows. a k = m_resident (rows ! k) + (\<Sum>c | (k, c) \<in> child_idx rows. a c)"
  shows "(\<Sum>k | k < length rows \<and> parent (rows ! k) \<notin> id' ` set rows. a k) =
         (\<Sum>k < length rows. m_resident (rows ! k) :: int)"
proof -
  let ?n = "length rows"
  let ?E = "child_idx rows"
  let ?R = "{k. k < ?n \<and> parent (rows ! k) \<notin> id' ` set rows}"
  let ?N = "{k. k < ?n \<and> parent (rows ! k) \<in> id' ` set rows}"
  have sig: "?E = (SIGMA k:{..<?n}. {c. (k, c) \<in> ?E})"
    by (auto simp add: child_idx_def)
  have finc: "finite {c. (k, c) \<in> ?E}" for k
    by (rule finite_subset [of _ "{..<?n}"]) (auto simp add: child_idx_def)
  have "(\<Sum>k < ?n. a k) = (\<Sum>k < ?n. m_resident (rows ! k) + (\<Sum>c | (k, c) \<in> ?E. a c))"
    by (rule sum.cong) (use fp in auto)
  also have "\<dots> = (\<Sum>k < ?n. m_resident (rows ! k)) + (\<Sum>k < ?n. \<Sum>c | (k, c) \<in> ?E. a c)"
    by (rule sum.distrib)
  also have "(\<Sum>k < ?n. \<Sum>c | (k, c) \<in> ?E. a c) = (\<Sum>x \<in> ?E. a (snd x))"
    using finc by (subst sig, subst sum.Sigma) (auto simp add: split_beta)
  also have "\<dots> = (\<Sum>c \<in> snd ` ?E. a c)"
    using snd_child_idx(1) [OF ac dist] by (simp add: sum.reindex)
  also have "snd ` ?E = ?N" using ac dist by (rule snd_child_idx(2))
  finally have 1: "(\<Sum>k < ?n. a k) = (\<Sum>k < ?n. m_resident (rows ! k)) + sum a ?N" .
  have "{..<?n} = ?R \<union> ?N" and "?R \<inter> ?N = {}" and "finite ?R" and "finite ?N" by auto
  then have 2: "(\<Sum>k < ?n. a k) = sum a ?R + sum a ?N"
    using sum.union_disjoint [of ?R ?N a] by simp
  from 1 2 show ?thesis by simp
qed

text \<open>The pass over exact sums on a row set whose parent graph has no cycle.\<close>

lemma populateAccumulatedFields_exact_acyclic:
  assumes "acyclic (parent_graph rows)" and "length rows \<le> d"
  shows "\<exists>rows'. Machine_populateAccumulatedFields d rows = Some rows' \<and>
           length rows' = length rows \<and>
           map id' rows' = map id' rows \<and> map parent rows' = map parent rows \<and>
           (\<forall>i < length rows.
              m_accResident (rows' ! i) =
                m_resident (rows ! i) + sum_list (map m_accResident (children_of rows' (rows ! i)))) \<and>
           (distinct (map id' rows) \<longrightarrow>
              sum_list (map m_accResident (roots_of rows')) = sum_list (map m_resident rows))"
proof -
  have ac: "acyclic (child_idx rows)" using assms(1) by (rule acyclic_child_idx)
  from populateAccumulatedFields_total [OF ac assms(2)]
  obtain rows' where
    r: "Machine_populateAccumulatedFields d rows = Some rows'" and
    len: "length rows' = length rows" and ids: "map id' rows' = map id' rows" and
    par: "map parent rows' = map parent rows" and
    t: "\<forall>k < length rows. m_accResident (rows' ! k) = subtree_total rows k"
    by blast
  have fp: "m_accResident (rows' ! k) =
               m_resident (rows ! k) + (\<Sum>c | (k, c) \<in> child_idx rows. m_accResident (rows' ! c))"
    if k: "k < length rows" for k
  proof -
    have "(\<Sum>c | (k, c) \<in> child_idx rows. m_accResident (rows' ! c)) =
          (\<Sum>c | (k, c) \<in> child_idx rows. subtree_total rows c)"
      by (rule sum.cong) (use t in \<open>auto simp add: child_idx_def\<close>)
    then show ?thesis using t k subtree_total_unfold [OF ac, of k] by simp
  qed
  have p1: "\<forall>i < length rows.
              m_accResident (rows' ! i) =
                m_resident (rows ! i) + sum_list (map m_accResident (children_of rows' (rows ! i)))"
    using fp children_sum [OF assms(1) _ len par] by simp
  have p2: "sum_list (map m_accResident (roots_of rows')) = sum_list (map m_resident rows)"
    if dist: "distinct (map id' rows)"
  proof -
    have "sum_list (map m_accResident (roots_of rows')) =
          (\<Sum>k | k < length rows \<and> parent (rows ! k) \<notin> id' ` set rows. m_accResident (rows' ! k))"
      using len par ids by (rule roots_sum)
    also have "\<dots> = (\<Sum>k < length rows. m_resident (rows ! k))"
      using assms(1) dist by (rule roots_total) (use fp in blast)
    also have "\<dots> = sum_list (map m_resident rows)"
      by (simp add: sum_list_sum_nth atLeast0LessThan)
    finally show ?thesis .
  qed
  show ?thesis using r len ids par p1 p2 by blast
qed

section \<open>Tree accumulation: the number of loop iterations\<close>

text \<open>Dropping the counter gives back the functions of the model.\<close>

lemma populateAcc_loop_count_fst:
  assumes "\<And>rs i t. map_option fst (icall rs i t) = call rs i"
  shows "map_option fst (populateAcc_loop_count icall cur is rows t) = populateAcc_loop call cur is rows"
proof (induction "is" arbitrary: rows t)
  case Nil
  then show ?case by simp
next
  case (Cons i "is")
  show ?case
  proof (cases "i \<noteq> cur \<and> parent (rows ! i) = id' (rows ! cur)")
    case False
    then have "populateAcc_loop_count icall cur (i # is) rows t =
               populateAcc_loop_count icall cur is rows (t + 1)"
      and "populateAcc_loop call cur (i # is) rows = populateAcc_loop call cur is rows"
      by auto
    then show ?thesis using Cons.IH by simp
  next
    case True
    show ?thesis
    proof (cases "icall rows i (t + 1)")
      case None
      then have "call rows i = None" using assms [of rows i "t + 1"] by simp
      then show ?thesis using True None by simp
    next
      case (Some r)
      obtain v rows' t' where r: "r = ((v, rows'), t')" by (metis surj_pair)
      have "call rows i = Some (v, rows')" using assms [of rows i "t + 1"] Some r by simp
      then show ?thesis using True Some r Cons.IH by simp
    qed
  qed
qed

lemma populateAccForProcess_count_fst:
  "map_option fst (Machine_populateAccForProcess_count d rows n cur t) =
   Machine_populateAccForProcess d rows n cur"
proof (induction d arbitrary: rows cur t)
  case 0
  then show ?case by simp
next
  case (Suc d)
  let ?rows1 = "rows[cur := (rows ! cur)\<lparr>m_accResident := m_resident (rows ! cur)\<rparr>]"
  have l: "map_option fst
          (populateAcc_loop_count (\<lambda>rs i u. Machine_populateAccForProcess_count d rs n i u)
             cur [0..<n] ?rows1 t) =
        populateAcc_loop (\<lambda>rs i. Machine_populateAccForProcess d rs n i) cur [0..<n] ?rows1"
    by (rule populateAcc_loop_count_fst) (rule Suc.IH)
  show ?case
  proof (cases "populateAcc_loop_count (\<lambda>rs i u. Machine_populateAccForProcess_count d rs n i u)
             cur [0..<n] ?rows1 t")
    case None
    then show ?thesis using l by simp
  next
    case (Some r)
    obtain rows' t' where r: "r = (rows', t')" by (cases r)
    have "populateAcc_loop (\<lambda>rs i. Machine_populateAccForProcess d rs n i) cur [0..<n] ?rows1 =
            Some rows'"
      using l Some r by simp
    then show ?thesis using Some r by simp
  qed
qed

lemma populateAll_loop_count_fst:
  "map_option fst (populateAll_loop_count d n is rows t) = populateAll_loop d n is rows"
proof (induction "is" arbitrary: rows t)
  case Nil
  then show ?case by simp
next
  case (Cons i "is")
  show ?case
  proof (cases "Machine_populateAccForProcess_count d rows n i t")
    case None
    then have "Machine_populateAccForProcess d rows n i = None"
      using populateAccForProcess_count_fst [of d rows n i t] by simp
    then show ?thesis using None by simp
  next
    case (Some r)
    obtain v rows' t' where r: "r = ((v, rows'), t')" by (metis surj_pair)
    have "Machine_populateAccForProcess d rows n i = Some (v, rows')"
      using populateAccForProcess_count_fst [of d rows n i t] Some r by simp
    then show ?thesis using Some r Cons.IH by simp
  qed
qed

lemma populateAccumulatedFields_count_fst:
  "map_option fst (Machine_populateAccumulatedFields_count d rows) =
   Machine_populateAccumulatedFields d rows"
proof -
  let ?rows1 = "map (\<lambda>p. p\<lparr>m_accResident := - 1\<rparr>) rows"
  show ?thesis
  proof (cases "populateAll_loop_count d (length rows) [0..<length rows] ?rows1 0")
    case None
    then have "populateAll_loop d (length rows) [0..<length rows] ?rows1 = None"
      using populateAll_loop_count_fst [of d "length rows" "[0..<length rows]" ?rows1 0] by simp
    then show ?thesis using None
      by (simp add: Machine_populateAccumulatedFields_count_def Machine_populateAccumulatedFields_def)
  next
    case (Some r)
    obtain rows2 t where r: "r = (rows2, t)" by (cases r)
    have "populateAll_loop d (length rows) [0..<length rows] ?rows1 = Some rows2"
      using populateAll_loop_count_fst [of d "length rows" "[0..<length rows]" ?rows1 0] Some r
      by simp
    then show ?thesis using Some r
      by (simp add: Machine_populateAccumulatedFields_count_def Machine_populateAccumulatedFields_def)
  qed
qed

text \<open>
  With non-negative values every row leaves the set of rows at -1 once, and the call that
  takes it out runs the loop over all \<open>n\<close> indices.
\<close>

lemma populateAcc_loop_count_rows:
  assumes nn: "returns_nonneg n call d"
    and link: "\<And>rs i t. map_option fst (icall rs i t) = call rs i"
    and cnt: "counts_rows n icall d"
  shows "inv_nonneg rows \<Longrightarrow> length rows = n \<Longrightarrow> cur < n \<Longrightarrow> cur \<notin> unset rows \<Longrightarrow>
         card (unset rows) < d \<Longrightarrow> set is \<subseteq> {..<n} \<Longrightarrow>
         populateAcc_loop_count icall cur is rows t = Some (rows', t') \<Longrightarrow>
         t' + n * card (unset rows') = t + length is + n * card (unset rows)"
proof (induction "is" arbitrary: rows t)
  case Nil
  then show ?case by simp
next
  case (Cons i "is")
  have sub: "set is \<subseteq> {..<n}" and i: "i < n" using Cons.prems(6) by simp_all
  show ?case
  proof (cases "i \<noteq> cur \<and> parent (rows ! i) = id' (rows ! cur)")
    case False
    then have "populateAcc_loop_count icall cur (i # is) rows t =
               populateAcc_loop_count icall cur is rows (t + 1)"
      by auto
    then have "populateAcc_loop_count icall cur is rows (t + 1) = Some (rows', t')"
      using Cons.prems(7) by simp
    from Cons.IH [OF Cons.prems(1-5) sub this] show ?thesis by simp
  next
    case True
    with Cons.prems(7) obtain v rows1 t1 where
      ic: "icall rows i (t + 1) = Some ((v, rows1), t1)" and
      l: "populateAcc_loop_count icall cur is
            (rows1[cur := (rows1 ! cur)\<lparr>m_accResident := m_accResident (rows1 ! cur) + v\<rparr>]) t1 =
          Some (rows', t')"
      by (auto split: option.splits)
    have c: "call rows i = Some (v, rows1)" using link [of rows i "t + 1"] ic by simp
    from nn [unfolded returns_nonneg_def, rule_format, of rows i] Cons.prems(1,2,5) i c
    have v: "0 \<le> v" and inv1: "inv_nonneg rows1" and
      st1: "map static rows1 = map static rows" and un1: "unset rows1 \<subseteq> unset rows - {i}"
      by auto
    have t1: "t1 + n * card (unset rows1) = t + 1 + n * card (unset rows)"
      using cnt [unfolded counts_rows_def, rule_format, of rows i "t + 1" v rows1 t1]
        Cons.prems(1,2,5) i ic by simp
    have len1: "length rows1 = n" using st1 Cons.prems(2) by (metis length_map)
    let ?x = "m_accResident (rows1 ! cur) + v"
    let ?rows2 = "rows1[cur := (rows1 ! cur)\<lparr>m_accResident := ?x\<rparr>]"
    have cur1: "cur \<notin> unset rows1" using un1 Cons.prems(4) by auto
    then have "m_accResident (rows1 ! cur) \<noteq> - 1"
      using len1 Cons.prems(3) by (simp add: unset_def)
    moreover have "- 1 \<le> m_accResident (rows1 ! cur)"
      using inv_nonneg_nth [OF inv1, of cur] len1 Cons.prems(3) by simp
    ultimately have x: "0 \<le> ?x" using v by simp
    have inv2: "inv_nonneg ?rows2" using inv1 x by (intro inv_nonneg_update) simp_all
    have "unset ?rows2 = unset rows1 - {cur}"
      using x len1 Cons.prems(3) by (intro unset_update) simp_all
    then have un2: "unset ?rows2 = unset rows1" using cur1 by simp
    have len2: "length ?rows2 = n" using len1 by simp
    have cur2: "cur \<notin> unset ?rows2" using un2 cur1 by simp
    have "unset rows1 \<subseteq> unset rows" using un1 by auto
    then have "card (unset rows1) \<le> card (unset rows)" by (intro card_mono finite_unset)
    then have card2: "card (unset ?rows2) < d" using un2 Cons.prems(5) by simp
    from Cons.IH [OF inv2 len2 Cons.prems(3) cur2 card2 sub l]
    have "t' + n * card (unset rows') = t1 + length is + n * card (unset rows1)"
      using un2 by simp
    then show ?thesis using t1 by simp
  qed
qed

lemma populateAccForProcess_count_rows:
  "counts_rows n (\<lambda>rs i u. Machine_populateAccForProcess_count d rs n i u) d"
proof (induction d)
  case 0
  then show ?case by (simp add: counts_rows_def)
next
  case (Suc d)
  show ?case
    unfolding counts_rows_def
  proof (intro allI impI, elim conjE)
    fix rows cur t v rows' t'
    assume inv: "inv_nonneg rows" and len: "length rows = n" and cur: "cur < n"
      and card: "card (unset rows) < Suc d"
      and r: "Machine_populateAccForProcess_count (Suc d) rows n cur t = Some ((v, rows'), t')"
    show "t' + n * card (unset rows') = t + n * card (unset rows)"
    proof (cases "m_accResident (rows ! cur) \<noteq> - 1")
      case True
      then show ?thesis using r by simp
    next
      case False
      let ?rows1 = "rows[cur := (rows ! cur)\<lparr>m_accResident := m_resident (rows ! cur)\<rparr>]"
      from False r have
        l: "populateAcc_loop_count (\<lambda>rs i u. Machine_populateAccForProcess_count d rs n i u)
              cur [0..<n] ?rows1 t = Some (rows', t')"
        by (auto split: option.splits)
      have raw: "0 \<le> m_resident (rows ! cur)" using inv_nonneg_nth [OF inv] cur len by simp
      have inv1: "inv_nonneg ?rows1" using inv raw by (intro inv_nonneg_update) simp_all
      have un1: "unset ?rows1 = unset rows - {cur}"
        using cur len raw by (intro unset_update) simp_all
      have mem: "cur \<in> unset rows" using False cur len by (simp add: unset_def)
      have c1: "card (unset rows) = Suc (card (unset ?rows1))"
        unfolding un1 using card_Suc_Diff1 [OF finite_unset mem] by simp
      then have card1: "card (unset ?rows1) < d" using card by simp
      have cur1: "cur \<notin> unset ?rows1" using un1 by simp
      have len1: "length ?rows1 = n" using len by simp
      have sub: "set [0..<n] \<subseteq> {..<n}" by auto
      have link: "map_option fst (Machine_populateAccForProcess_count d rs n i u) =
                  Machine_populateAccForProcess d rs n i" for rs i u
        by (rule populateAccForProcess_count_fst)
      have "t' + n * card (unset rows') = t + length [0..<n] + n * card (unset ?rows1)"
        by (rule populateAcc_loop_count_rows
              [where icall = "\<lambda>rs i u. Machine_populateAccForProcess_count d rs n i u"
                 and call = "\<lambda>rs i. Machine_populateAccForProcess d rs n i",
               OF populateAccForProcess_nonneg link Suc inv1 len1 cur cur1 card1 sub l])
      then show ?thesis using c1 by simp
    qed
  qed
qed

lemma populateAll_loop_count_rows:
  "inv_nonneg rows \<Longrightarrow> length rows = n \<Longrightarrow> card (unset rows) < d \<Longrightarrow> set is \<subseteq> {..<n} \<Longrightarrow>
   populateAll_loop_count d n is rows t = Some (rows', t') \<Longrightarrow>
   t' + n * card (unset rows') = t + n * card (unset rows)"
proof (induction "is" arbitrary: rows t)
  case Nil
  then show ?case by simp
next
  case (Cons i "is")
  have sub: "set is \<subseteq> {..<n}" and i: "i < n" using Cons.prems(4) by simp_all
  from Cons.prems(5) obtain v rows1 t1 where
    ic: "Machine_populateAccForProcess_count d rows n i t = Some ((v, rows1), t1)" and
    l: "populateAll_loop_count d n is rows1 t1 = Some (rows', t')"
    by (auto split: option.splits)
  have c: "Machine_populateAccForProcess d rows n i = Some (v, rows1)"
    using populateAccForProcess_count_fst [of d rows n i t] ic by simp
  from populateAccForProcess_nonneg [of n d, unfolded returns_nonneg_def, rule_format, of rows i]
    Cons.prems(1,2,3) i c
  have inv1: "inv_nonneg rows1" and st1: "map static rows1 = map static rows"
    and un1: "unset rows1 \<subseteq> unset rows - {i}"
    by auto
  have t1: "t1 + n * card (unset rows1) = t + n * card (unset rows)"
    using populateAccForProcess_count_rows [of n d, unfolded counts_rows_def, rule_format,
        of rows i t v rows1 t1] Cons.prems(1,2,3) i ic by simp
  have len1: "length rows1 = n" using st1 Cons.prems(2) by (metis length_map)
  have "unset rows1 \<subseteq> unset rows" using un1 by auto
  then have "card (unset rows1) \<le> card (unset rows)" by (intro card_mono finite_unset)
  then have card1: "card (unset rows1) < d" using Cons.prems(3) by simp
  from Cons.IH [OF inv1 len1 card1 sub l] t1 show ?case by simp
qed

text \<open>
  Claim C9 fails on the code. For every row set with non-negative resident sizes the
  accumulation pass runs the loop of lines 107 to 113 exactly \<open>n * n\<close> times for \<open>n\<close>
  rows, whatever the parent edges are, of which there are at most \<open>n\<close>.
\<close>

theorem populateAccumulatedFields_quadratic:
  assumes "\<forall>p \<in> set rows. 0 \<le> m_resident p" and "length rows < d"
  shows "\<exists>rows'. Machine_populateAccumulatedFields d rows = Some rows' \<and>
           Machine_populateAccumulatedFields_count d rows =
             Some (rows', length rows * length rows)"
proof -
  let ?n = "length rows"
  let ?rows1 = "map (\<lambda>p. p\<lparr>m_accResident := - 1\<rparr>) rows"
  have inv1: "inv_nonneg ?rows1" using assms(1) by (simp add: inv_nonneg_def)
  have all: "unset ?rows1 = {..<?n}" by (auto simp add: unset_def)
  then have card1: "card (unset ?rows1) < d" using assms(2) by simp
  have len1: "length ?rows1 = ?n" by simp
  have sub: "set [0..<?n] \<subseteq> {..<?n}" by auto
  from populateAll_loop_nonneg [OF inv1 len1 card1 sub]
  obtain rows2 where
    l: "populateAll_loop d ?n [0..<?n] ?rows1 = Some rows2" and
    un2: "unset rows2 \<subseteq> unset ?rows1 - set [0..<?n]"
    by auto
  have e: "unset rows2 = {}" using un2 all by auto
  from l obtain t where
    lc: "populateAll_loop_count d ?n [0..<?n] ?rows1 0 = Some (rows2, t)"
    using populateAll_loop_count_fst [of d ?n "[0..<?n]" ?rows1 0] by auto
  from populateAll_loop_count_rows [OF inv1 len1 card1 sub lc]
  have "t = ?n * ?n" using e all by simp
  then show ?thesis
    using l lc
    by (simp add: Machine_populateAccumulatedFields_def Machine_populateAccumulatedFields_count_def
        Let_def)
qed

text \<open>
  Four rows without any parent edge: 16 iterations, where the number of rows and edges
  together is 4.
\<close>

theorem populateAccumulatedFields_quadratic_witness:
  "map_option snd (Machine_populateAccumulatedFields_count 5 rows_flat) = Some 16"
proof -
  have a: "\<forall>p \<in> set rows_flat. 0 \<le> m_resident p" by (simp add: rows_flat_def)
  have b: "length rows_flat < 5" by (simp add: rows_flat_def)
  have c: "length rows_flat = 4" by (simp add: rows_flat_def)
  from populateAccumulatedFields_quadratic [OF a b] obtain rows' where
    "Machine_populateAccumulatedFields_count 5 rows_flat = Some (rows', length rows_flat * length rows_flat)"
    by blast
  then show ?thesis using c by simp
qed

section \<open>Tree accumulation in long: exact sums and overflow\<close>

lemma long_add_Some: "long_add a b = Some x \<Longrightarrow> x = a + b \<and> in_long x"
  by (simp add: long_add_def split: if_splits)

lemma long_add_cases: "long_add a b = Some (a + b) \<or> long_add a b = None"
  by (simp add: long_add_def)

text \<open>What the functions in \<^verbatim>\<open>long\<close> return, the functions over exact sums return.\<close>

lemma populateAcc_loop_long_exact:
  assumes "\<And>rs i r. lcall rs i = Inr r \<Longrightarrow> call rs i = Some r"
  shows "populateAcc_loop_long lcall cur is rows = Inr rows' \<Longrightarrow>
         populateAcc_loop call cur is rows = Some rows'"
proof (induction "is" arbitrary: rows)
  case Nil
  then show ?case by simp
next
  case (Cons i "is")
  show ?case
  proof (cases "i \<noteq> cur \<and> parent (rows ! i) = id' (rows ! cur)")
    case False
    then have "populateAcc_loop_long lcall cur (i # is) rows = populateAcc_loop_long lcall cur is rows"
      and "populateAcc_loop call cur (i # is) rows = populateAcc_loop call cur is rows"
      by auto
    then show ?thesis using Cons by simp
  next
    case True
    with Cons.prems obtain v rows1 x where
      c: "lcall rows i = Inr (v, rows1)" and a: "long_add (m_accResident (rows1 ! cur)) v = Some x" and
      l: "populateAcc_loop_long lcall cur is (rows1[cur := (rows1 ! cur)\<lparr>m_accResident := x\<rparr>]) =
            Inr rows'"
      by (auto split: sum.splits option.splits)
    have x: "x = m_accResident (rows1 ! cur) + v" using long_add_Some [OF a] by simp
    from Cons.IH [OF l] assms [OF c] True x show ?thesis by simp
  qed
qed

lemma populateAccForProcess_long_exact:
  "Machine_populateAccForProcess_long d rows n cur = Inr r \<Longrightarrow>
   Machine_populateAccForProcess d rows n cur = Some r"
proof (induction d arbitrary: rows cur r)
  case 0
  then show ?case by simp
next
  case (Suc d)
  show ?case
  proof (cases "m_accResident (rows ! cur) \<noteq> - 1")
    case True
    then show ?thesis using Suc.prems by simp
  next
    case False
    let ?rows1 = "rows[cur := (rows ! cur)\<lparr>m_accResident := m_resident (rows ! cur)\<rparr>]"
    from False Suc.prems obtain rows' where
      l: "populateAcc_loop_long (\<lambda>rs i. Machine_populateAccForProcess_long d rs n i) cur [0..<n] ?rows1 =
            Inr rows'"
      and r: "r = (m_accResident (rows' ! cur), rows')"
      by (auto split: sum.splits)
    have "populateAcc_loop (\<lambda>rs i. Machine_populateAccForProcess d rs n i) cur [0..<n] ?rows1 = Some rows'"
      using l by (rule populateAcc_loop_long_exact [rotated]) (rule Suc.IH)
    then show ?thesis using False r by simp
  qed
qed

lemma populateAll_loop_long_exact:
  "populateAll_loop_long d n is rows = Inr rows' \<Longrightarrow> populateAll_loop d n is rows = Some rows'"
proof (induction "is" arbitrary: rows)
  case Nil
  then show ?case by simp
next
  case (Cons i "is")
  then obtain v rows1 where
    c: "Machine_populateAccForProcess_long d rows n i = Inr (v, rows1)" and
    l: "populateAll_loop_long d n is rows1 = Inr rows'"
    by (auto split: sum.splits)
  from populateAccForProcess_long_exact [OF c] Cons.IH [OF l] show ?case by simp
qed

lemma populateAccumulatedFields_long_exact:
  "Machine_populateAccumulatedFields_long d rows = Inr rows' \<Longrightarrow>
   Machine_populateAccumulatedFields d rows = Some rows'"
  by (auto simp add: Machine_populateAccumulatedFields_long_def Machine_populateAccumulatedFields_def
      Let_def dest: populateAll_loop_long_exact split: sum.splits)

text \<open>
  What the functions over exact sums return, the functions in \<^verbatim>\<open>long\<close> return, unless an
  addition overflows.
\<close>

lemma populateAcc_loop_exact_long:
  assumes "\<And>rs i r. call rs i = Some r \<Longrightarrow> lcall rs i = Inr r \<or> lcall rs i = Inl Signed_overflow"
  shows "populateAcc_loop call cur is rows = Some rows' \<Longrightarrow>
         populateAcc_loop_long lcall cur is rows = Inr rows' \<or>
         populateAcc_loop_long lcall cur is rows = Inl Signed_overflow"
proof (induction "is" arbitrary: rows)
  case Nil
  then show ?case by simp
next
  case (Cons i "is")
  show ?case
  proof (cases "i \<noteq> cur \<and> parent (rows ! i) = id' (rows ! cur)")
    case False
    then have "populateAcc_loop_long lcall cur (i # is) rows = populateAcc_loop_long lcall cur is rows"
      and "populateAcc_loop call cur (i # is) rows = populateAcc_loop call cur is rows"
      by auto
    then show ?thesis using Cons by simp
  next
    case True
    with Cons.prems obtain v rows1 where
      c: "call rows i = Some (v, rows1)" and
      l: "populateAcc_loop call cur is
            (rows1[cur := (rows1 ! cur)\<lparr>m_accResident := m_accResident (rows1 ! cur) + v\<rparr>]) = Some rows'"
      by (auto split: option.splits)
    from assms [OF c] show ?thesis
    proof
      assume lc: "lcall rows i = Inr (v, rows1)"
      from long_add_cases [of "m_accResident (rows1 ! cur)" v] show ?thesis
      proof
        assume "long_add (m_accResident (rows1 ! cur)) v = Some (m_accResident (rows1 ! cur) + v)"
        then show ?thesis using True lc Cons.IH [OF l] by simp
      next
        assume "long_add (m_accResident (rows1 ! cur)) v = None"
        then show ?thesis using True lc by simp
      qed
    next
      assume "lcall rows i = Inl Signed_overflow"
      then show ?thesis using True by simp
    qed
  qed
qed

lemma populateAccForProcess_exact_long:
  "Machine_populateAccForProcess d rows n cur = Some r \<Longrightarrow>
   Machine_populateAccForProcess_long d rows n cur = Inr r \<or>
   Machine_populateAccForProcess_long d rows n cur = Inl Signed_overflow"
proof (induction d arbitrary: rows cur r)
  case 0
  then show ?case by simp
next
  case (Suc d)
  show ?case
  proof (cases "m_accResident (rows ! cur) \<noteq> - 1")
    case True
    then show ?thesis using Suc.prems by simp
  next
    case False
    let ?rows1 = "rows[cur := (rows ! cur)\<lparr>m_accResident := m_resident (rows ! cur)\<rparr>]"
    from False Suc.prems obtain rows' where
      l: "populateAcc_loop (\<lambda>rs i. Machine_populateAccForProcess d rs n i) cur [0..<n] ?rows1 = Some rows'"
      and r: "r = (m_accResident (rows' ! cur), rows')"
      by (auto split: option.splits)
    have "populateAcc_loop_long (\<lambda>rs i. Machine_populateAccForProcess_long d rs n i) cur [0..<n] ?rows1 =
            Inr rows' \<or>
          populateAcc_loop_long (\<lambda>rs i. Machine_populateAccForProcess_long d rs n i) cur [0..<n] ?rows1 =
            Inl Signed_overflow"
      using l by (rule populateAcc_loop_exact_long [rotated]) (rule Suc.IH)
    then show ?thesis using False r by auto
  qed
qed

lemma populateAll_loop_exact_long:
  "populateAll_loop d n is rows = Some rows' \<Longrightarrow>
   populateAll_loop_long d n is rows = Inr rows' \<or>
   populateAll_loop_long d n is rows = Inl Signed_overflow"
proof (induction "is" arbitrary: rows)
  case Nil
  then show ?case by simp
next
  case (Cons i "is")
  then obtain v rows1 where
    c: "Machine_populateAccForProcess d rows n i = Some (v, rows1)" and
    l: "populateAll_loop d n is rows1 = Some rows'"
    by (auto split: option.splits)
  from populateAccForProcess_exact_long [OF c] Cons.IH [OF l] show ?case by auto
qed

lemma populateAccumulatedFields_exact_long:
  assumes "Machine_populateAccumulatedFields d rows = Some rows'"
  shows "Machine_populateAccumulatedFields_long d rows = Inr rows' \<or>
         Machine_populateAccumulatedFields_long d rows = Inl Signed_overflow"
proof -
  from assms obtain rows2 where
    l: "populateAll_loop d (length rows) [0..<length rows] (map (\<lambda>p. p\<lparr>m_accResident := - 1\<rparr>) rows) =
          Some rows2"
    and r: "rows' = map (\<lambda>p. p\<lparr>m_resident := m_accResident p\<rparr>) rows2"
    by (auto simp add: Machine_populateAccumulatedFields_def Let_def split: option.splits)
  from populateAll_loop_exact_long [OF l] r show ?thesis
    by (auto simp add: Machine_populateAccumulatedFields_long_def Let_def)
qed










text \<open>
  Claim C1, as stated, fails. The parent graph of \<open>rows_dup\<close> has no cycle, and no
  addition overflows. The row with the parent 1 is added to both rows with the identifier
  1: the two roots hold 6 each, 12 together, and the sizes of all rows add up to 7.
\<close>

theorem populateAccumulatedFields_long_acyclic_counterexample:
  "acyclic (parent_graph rows_dup) \<and>
   map_sum id (map m_accResident) (Machine_populateAccumulatedFields_long 3 rows_dup) = Inr [6, 6, 5] \<and>
   map_sum id (\<lambda>r. sum_list (map m_accResident (roots_of r)))
     (Machine_populateAccumulatedFields_long 3 rows_dup) = Inr 12 \<and>
   sum_list (map m_resident rows_dup) = 7"
proof -
  have "acyclic (parent_graph rows_dup)"
  proof (rule acyclicI_order [where f = uminus])
    fix a b :: int
    assume "(a, b) \<in> parent_graph rows_dup"
    then show "- b < - a" by (auto simp add: parent_graph_def rows_dup_def)
  qed
  moreover have "map_sum id (map m_accResident) (Machine_populateAccumulatedFields_long 3 rows_dup) =
      Inr [6, 6, 5]"
    unfolding rows_dup_def by code_simp
  moreover have "map_sum id (\<lambda>r. sum_list (map m_accResident (roots_of r)))
     (Machine_populateAccumulatedFields_long 3 rows_dup) = Inr 12"
    unfolding rows_dup_def roots_of_def by code_simp
  moreover have "sum_list (map m_resident rows_dup) = 7" by (simp add: rows_dup_def)
  ultimately show ?thesis by blast
qed

text \<open>
  Claim C1, amended. For every row set whose parent graph has no cycle (parents that are
  not in the table included), the accumulation pass returns once as many nested calls are
  available as there are rows. Unless one of its additions overflows \<^verbatim>\<open>long\<close>, it leaves
  the rows with their identifiers and parents, and every row's accumulated value is the
  resident size it had before the pass plus the accumulated values of all rows whose
  parent identifier is its identifier; if moreover the identifiers of the rows are
  pairwise distinct, the accumulated values of the roots add up to the resident sizes of
  all rows.
\<close>

theorem populateAccumulatedFields_long_acyclic:
  assumes "acyclic (parent_graph rows)" and "length rows \<le> d"
    and "Machine_populateAccumulatedFields_long d rows \<noteq> Inl Signed_overflow"
  shows "\<exists>rows'. Machine_populateAccumulatedFields_long d rows = Inr rows' \<and>
           length rows' = length rows \<and>
           map id' rows' = map id' rows \<and> map parent rows' = map parent rows \<and>
           (\<forall>i < length rows.
              m_accResident (rows' ! i) =
                m_resident (rows ! i) + sum_list (map m_accResident (children_of rows' (rows ! i)))) \<and>
           (distinct (map id' rows) \<longrightarrow>
              sum_list (map m_accResident (roots_of rows')) = sum_list (map m_resident rows))"
proof -
  from populateAccumulatedFields_exact_acyclic [OF assms(1,2)]
  obtain rows' where r: "Machine_populateAccumulatedFields d rows = Some rows'" and
    p: "length rows' = length rows \<and>
           map id' rows' = map id' rows \<and> map parent rows' = map parent rows \<and>
           (\<forall>i < length rows.
              m_accResident (rows' ! i) =
                m_resident (rows ! i) + sum_list (map m_accResident (children_of rows' (rows ! i)))) \<and>
           (distinct (map id' rows) \<longrightarrow>
              sum_list (map m_accResident (roots_of rows')) = sum_list (map m_resident rows))"
    by blast
  from populateAccumulatedFields_exact_long [OF r] assms(3)
  have "Machine_populateAccumulatedFields_long d rows = Inr rows'" by simp
  with p show ?thesis by blast
qed

text \<open>
  The forest of five rows: the pass leaves 185, 60, 25, 10 and 5, row 1 holds its 100 plus
  what its children hold, and the roots (rows 1 and 100) hold 190 together, the sum of all
  resident sizes.
\<close>

theorem populateAccumulatedFields_long_acyclic_witness:
  "map_sum id (map m_accResident) (Machine_populateAccumulatedFields_long 5 rows_forest) =
     Inr [185, 60, 25, 10, 5] \<and>
   (\<exists>rows'. Machine_populateAccumulatedFields_long 5 rows_forest = Inr rows' \<and>
      map id' rows' = [1, 2, 3, 4, 100] \<and> map parent rows' = [0, 1, 1, 2, 99] \<and>
      m_accResident (rows' ! 0) =
        100 + sum_list (map m_accResident (children_of rows' (rows_forest ! 0))) \<and>
      sum_list (map m_accResident (roots_of rows')) = 190)"
proof -
  have e: "map_sum id (map m_accResident) (Machine_populateAccumulatedFields_long 5 rows_forest) =
     Inr [185, 60, 25, 10, 5]"
    unfolding rows_forest_def by code_simp
  then have n: "Machine_populateAccumulatedFields_long 5 rows_forest \<noteq> Inl Signed_overflow" by auto
  have ac: "acyclic (parent_graph rows_forest)"
  proof (rule acyclicI_order [where f = uminus])
    fix a b :: int
    assume "(a, b) \<in> parent_graph rows_forest"
    then show "- b < - a" by (auto simp add: parent_graph_def rows_forest_def)
  qed
  have len: "length rows_forest \<le> 5" by (simp add: rows_forest_def)
  have dist: "distinct (map id' rows_forest)" by (simp add: rows_forest_def)
  have raw: "sum_list (map m_resident rows_forest) = 190" "m_resident (rows_forest ! 0) = 100"
    "length rows_forest = 5" "map id' rows_forest = [1, 2, 3, 4, 100]"
    "map parent rows_forest = [0, 1, 1, 2, 99]"
    by (simp_all add: rows_forest_def)
  from populateAccumulatedFields_long_acyclic [OF ac len n]
  obtain rows' where r: "Machine_populateAccumulatedFields_long 5 rows_forest = Inr rows'"
    and i: "map id' rows' = map id' rows_forest" and p: "map parent rows' = map parent rows_forest"
    and c: "\<forall>i < length rows_forest.
              m_accResident (rows' ! i) =
                m_resident (rows_forest ! i) +
                sum_list (map m_accResident (children_of rows' (rows_forest ! i)))"
    and s: "distinct (map id' rows_forest) \<longrightarrow>
              sum_list (map m_accResident (roots_of rows')) = sum_list (map m_resident rows_forest)"
    by blast
  have c0: "m_accResident (rows' ! 0) =
        100 + sum_list (map m_accResident (children_of rows' (rows_forest ! 0)))"
    using c [rule_format, of 0] raw(2,3) by simp
  have s0: "sum_list (map m_accResident (roots_of rows')) = 190"
    using s dist raw(1) by simp
  show ?thesis using e r i p c0 s0 raw(4,5) by simp
qed

section \<open>Tree accumulation: rows met while they are in progress\<close>

text \<open>Dropping the log gives back the functions in \<^verbatim>\<open>long\<close>.\<close>

lemma populateAcc_loop_met_fst:
  assumes "\<And>rs i u. map_sum id fst (icall rs i u) = call rs i"
  shows "map_sum id fst (populateAcc_loop_met icall stack cur is rows adds) =
         populateAcc_loop_long call cur is rows"
proof (induction "is" arbitrary: rows adds)
  case Nil
  then show ?case by simp
next
  case (Cons i "is")
  show ?case
  proof (cases "i \<noteq> cur \<and> parent (rows ! i) = id' (rows ! cur)")
    case False
    then have "populateAcc_loop_met icall stack cur (i # is) rows adds =
               populateAcc_loop_met icall stack cur is rows adds"
      and "populateAcc_loop_long call cur (i # is) rows = populateAcc_loop_long call cur is rows"
      by auto
    then show ?thesis using Cons.IH by simp
  next
    case True
    show ?thesis
    proof (cases "icall rows i adds")
      case (Inl e)
      then have "call rows i = Inl e" using assms [of rows i adds] by simp
      then show ?thesis using True Inl by simp
    next
      case (Inr r)
      obtain v rows' adds' where r: "r = ((v, rows'), adds')" by (metis surj_pair)
      have c: "call rows i = Inr (v, rows')" using assms [of rows i adds] Inr r by simp
      show ?thesis
      proof (cases "long_add (m_accResident (rows' ! cur)) v")
        case None
        then show ?thesis using True Inr r c by simp
      next
        case (Some x)
        then show ?thesis using True Inr r c Cons.IH by simp
      qed
    qed
  qed
qed

lemma populateAccForProcess_met_fst:
  "map_sum id fst (Machine_populateAccForProcess_met d stack rows n cur adds) =
   Machine_populateAccForProcess_long d rows n cur"
proof (induction d arbitrary: stack rows cur adds)
  case 0
  then show ?case by simp
next
  case (Suc d)
  let ?rows1 = "rows[cur := (rows ! cur)\<lparr>m_accResident := m_resident (rows ! cur)\<rparr>]"
  have l: "map_sum id fst
        (populateAcc_loop_met (\<lambda>rs i u. Machine_populateAccForProcess_met d (cur # stack) rs n i u)
           (cur # stack) cur [0..<n] ?rows1 adds) =
        populateAcc_loop_long (\<lambda>rs i. Machine_populateAccForProcess_long d rs n i) cur [0..<n] ?rows1"
    by (rule populateAcc_loop_met_fst) (rule Suc.IH)
  show ?case
  proof (cases "populateAcc_loop_met
             (\<lambda>rs i u. Machine_populateAccForProcess_met d (cur # stack) rs n i u)
             (cur # stack) cur [0..<n] ?rows1 adds")
    case (Inl e)
    then have "populateAcc_loop_long (\<lambda>rs i. Machine_populateAccForProcess_long d rs n i) cur [0..<n] ?rows1 =
            Inl e"
      using l by simp
    then show ?thesis using Inl by simp
  next
    case (Inr r)
    obtain rows' adds' where r: "r = (rows', adds')" by (cases r)
    have "populateAcc_loop_long (\<lambda>rs i. Machine_populateAccForProcess_long d rs n i) cur [0..<n] ?rows1 =
            Inr rows'"
      using l Inr r by simp
    then show ?thesis using Inr r by simp
  qed
qed

lemma populateAll_loop_met_fst:
  "map_sum id fst (populateAll_loop_met d n is rows adds) = populateAll_loop_long d n is rows"
proof (induction "is" arbitrary: rows adds)
  case Nil
  then show ?case by simp
next
  case (Cons i "is")
  show ?case
  proof (cases "Machine_populateAccForProcess_met d [] rows n i adds")
    case (Inl e)
    then have "Machine_populateAccForProcess_long d rows n i = Inl e"
      using populateAccForProcess_met_fst [of d "[]" rows n i adds] by simp
    then show ?thesis using Inl by simp
  next
    case (Inr r)
    obtain v rows' adds' where r: "r = ((v, rows'), adds')" by (metis surj_pair)
    have "Machine_populateAccForProcess_long d rows n i = Inr (v, rows')"
      using populateAccForProcess_met_fst [of d "[]" rows n i adds] Inr r by simp
    then show ?thesis using Inr r Cons.IH by simp
  qed
qed

lemma populateAccumulatedFields_met_fst:
  "map_sum id fst (Machine_populateAccumulatedFields_met d rows) =
   Machine_populateAccumulatedFields_long d rows"
proof -
  let ?rows1 = "map (\<lambda>p. p\<lparr>m_accResident := - 1\<rparr>) rows"
  have l: "map_sum id fst (populateAll_loop_met d (length rows) [0..<length rows] ?rows1 []) =
           populateAll_loop_long d (length rows) [0..<length rows] ?rows1"
    by (rule populateAll_loop_met_fst)
  show ?thesis
  proof (cases "populateAll_loop_met d (length rows) [0..<length rows] ?rows1 []")
    case (Inl e)
    then have "populateAll_loop_long d (length rows) [0..<length rows] ?rows1 = Inl e"
      using l by simp
    then show ?thesis
      using Inl by (simp add: Machine_populateAccumulatedFields_met_def
          Machine_populateAccumulatedFields_long_def)
  next
    case (Inr r)
    obtain rows2 adds where r: "r = (rows2, adds)" by (cases r)
    then have "populateAll_loop_long d (length rows) [0..<length rows] ?rows1 = Inr rows2"
      using l Inr by simp
    then show ?thesis
      using Inr r by (simp add: Machine_populateAccumulatedFields_met_def
          Machine_populateAccumulatedFields_long_def)
  qed
qed

text \<open>The log between two steps of the traversal.\<close>

lemma added_append:
  "added (adds @ [a]) k = added adds k + (if into a = k then amount a else 0)"
  by (simp add: added_def)

lemma added_none: "\<forall>a \<in> set adds. into a \<noteq> k \<Longrightarrow> added adds k = 0"
  by (induction adds) (simp_all add: added_def)

lemma log_ok_append:
  assumes "log_ok raw adds" and "child a < length raw"
    and "amount a = raw ! child a + added adds (child a)"
    and "in_progress a \<Longrightarrow> returned a = before a \<and> m_accResident (before a ! child a) = amount a"
  shows "log_ok raw (adds @ [a])"
  unfolding log_ok_def
proof (intro allI impI)
  fix k
  assume k: "k < length (adds @ [a])"
  let ?b = "(adds @ [a]) ! k"
  show "child ?b < length raw \<and>
        amount ?b = raw ! child ?b + added (take k (adds @ [a])) (child ?b) \<and>
        (in_progress ?b \<longrightarrow>
           returned ?b = before ?b \<and> m_accResident (before ?b ! child ?b) = amount ?b)"
  proof (cases "k < length adds")
    case True
    then have "?b = adds ! k" and "take k (adds @ [a]) = take k adds"
      by (simp_all add: nth_append)
    then show ?thesis using assms(1) True by (simp add: log_ok_def)
  next
    case False
    then have "k = length adds" using k by simp
    then have "?b = a" and "take k (adds @ [a]) = adds" by simp_all
    then show ?thesis using assms(2-4) by simp
  qed
qed

lemma map_m_resident_update:
  "map m_resident (rows[cur := (rows ! cur)\<lparr>m_accResident := x\<rparr>]) = map m_resident rows"
  by (cases "cur < length rows")
    (auto simp add: list_eq_iff_nth_eq nth_list_update not_less list_update_beyond)

lemma met_inv_set:
  "met_inv raw stack rows adds \<Longrightarrow> k < length rows \<Longrightarrow> k \<notin> unset rows \<Longrightarrow>
   0 \<le> m_accResident (rows ! k) \<and> m_accResident (rows ! k) = raw ! k + added adds k"
proof -
  assume J: "met_inv raw stack rows adds" and k: "k < length rows" "k \<notin> unset rows"
  have "- 1 \<le> m_accResident (rows ! k)" using J k(1) by (simp add: met_inv_def inv_nonneg_def)
  moreover have "m_accResident (rows ! k) \<noteq> - 1" using k by (simp add: unset_def)
  ultimately have "0 \<le> m_accResident (rows ! k)" by simp
  then show ?thesis using J k by (simp add: met_inv_def)
qed

lemma met_inv_start:
  assumes J: "met_inv raw stack rows adds" and cur: "cur < length rows" "cur \<in> unset rows"
  shows "met_inv raw (cur # stack)
           (rows[cur := (rows ! cur)\<lparr>m_accResident := m_resident (rows ! cur)\<rparr>]) adds"
proof -
  let ?rows1 = "rows[cur := (rows ! cur)\<lparr>m_accResident := m_resident (rows ! cur)\<rparr>]"
  have res: "0 \<le> m_resident (rows ! cur)" using J cur(1) by (simp add: met_inv_def inv_nonneg_def)
  then have ne: "m_resident (rows ! cur) \<noteq> - 1" by simp
  have u: "unset ?rows1 = unset rows - {cur}" using cur(1) ne by (rule unset_update)
  have i: "inv_nonneg ?rows1" using J res by (simp add: met_inv_def inv_nonneg_update)
  have raw: "map m_resident rows = raw" using J by (simp add: met_inv_def)
  have m: "map m_resident ?rows1 = raw"
    using raw by (simp only: map_m_resident_update)
  have s: "set (cur # stack) \<inter> unset ?rows1 = {}" using J u by (auto simp add: met_inv_def)
  have n: "\<forall>k \<in> unset ?rows1. \<forall>a \<in> set adds. into a \<noteq> k" using J u by (simp add: met_inv_def)
  have "added adds cur = 0" using J cur(2) by (simp add: met_inv_def added_none)
  moreover have "raw ! cur = m_resident (rows ! cur)" using raw cur(1) by auto
  ultimately have a: "\<forall>k < length ?rows1. k \<notin> unset ?rows1 \<longrightarrow>
      m_accResident (?rows1 ! k) = raw ! k + added adds k"
    using J u cur(1) by (auto simp add: met_inv_def nth_list_update)
  have "log_ok raw adds" using J by (simp add: met_inv_def)
  with i m s n a show ?thesis unfolding met_inv_def by blast
qed

lemma met_inv_add:
  assumes J: "met_inv raw stack rows1 adds1"
    and cur: "cur \<in> set stack" "cur < length rows1"
    and i: "i < length rows1" "i \<notin> unset rows1"
    and v: "v = m_accResident (rows1 ! i)"
    and ip: "i \<in> set stack \<Longrightarrow> rows1 = rowsb"
  shows "met_inv raw stack
           (rows1[cur := (rows1 ! cur)\<lparr>m_accResident := m_accResident (rows1 ! cur) + v\<rparr>])
           (adds1 @ [\<lparr>into = cur, child = i, amount = v, in_progress = (i \<in> set stack),
                      before = rowsb, returned = rows1\<rparr>])"
proof -
  let ?x = "m_accResident (rows1 ! cur) + v"
  let ?rows2 = "rows1[cur := (rows1 ! cur)\<lparr>m_accResident := ?x\<rparr>]"
  let ?a = "\<lparr>into = cur, child = i, amount = v, in_progress = (i \<in> set stack),
             before = rowsb, returned = rows1\<rparr>"
  have cu: "cur \<notin> unset rows1" using J cur(1) by (auto simp add: met_inv_def)
  from met_inv_set [OF J cur(2) cu] have c0: "0 \<le> m_accResident (rows1 ! cur)"
    and c1: "m_accResident (rows1 ! cur) = raw ! cur + added adds1 cur" by simp_all
  from met_inv_set [OF J i] v have v0: "0 \<le> v" and v1: "v = raw ! i + added adds1 i" by simp_all
  have x0: "0 \<le> ?x" using c0 v0 by simp
  then have ne: "?x \<noteq> - 1" by simp
  have "unset ?rows2 = unset rows1 - {cur}" using cur(2) ne by (rule unset_update)
  then have u: "unset ?rows2 = unset rows1" using cu by auto
  have inv: "inv_nonneg ?rows2" using J x0 by (simp add: met_inv_def inv_nonneg_update)
  have raw: "map m_resident rows1 = raw" using J by (simp add: met_inv_def)
  have m: "map m_resident ?rows2 = raw"
    using raw by (simp only: map_m_resident_update)
  have s: "set stack \<inter> unset ?rows2 = {}" using J u by (simp add: met_inv_def)
  have n: "\<forall>k \<in> unset ?rows2. \<forall>a \<in> set (adds1 @ [?a]). into a \<noteq> k"
    using J u cu by (auto simp add: met_inv_def)
  have a: "\<forall>k < length ?rows2. k \<notin> unset ?rows2 \<longrightarrow>
      m_accResident (?rows2 ! k) = raw ! k + added (adds1 @ [?a]) k"
  proof (intro allI impI)
    fix k
    assume k: "k < length ?rows2" "k \<notin> unset ?rows2"
    then have k1: "k < length rows1" "k \<notin> unset rows1" using u by simp_all
    show "m_accResident (?rows2 ! k) = raw ! k + added (adds1 @ [?a]) k"
    proof (cases "k = cur")
      case True
      then show ?thesis using c1 cur(2) by (simp add: added_append)
    next
      case False
      then show ?thesis using met_inv_set [OF J k1] by (simp add: added_append)
    qed
  qed
  have len: "length raw = length rows1" using raw by auto
  have "log_ok raw adds1" using J by (simp add: met_inv_def)
  then have l: "log_ok raw (adds1 @ [?a])"
  proof (rule log_ok_append)
    show "child ?a < length raw" using i(1) len by simp
    show "amount ?a = raw ! child ?a + added adds1 (child ?a)" using v1 by simp
    show "returned ?a = before ?a \<and> m_accResident (before ?a ! child ?a) = amount ?a"
      if "in_progress ?a"
      using that ip v by simp
  qed
  from inv m s n a l show ?thesis unfolding met_inv_def by blast
qed

lemma met_inv_stack: "met_inv raw (cur # stack) rows adds \<Longrightarrow> met_inv raw stack rows adds"
  by (auto simp add: met_inv_def)

lemma populateAcc_loop_met_inv:
  assumes call: "\<And>rs i u v rs' u'. icall rs i u = Inr ((v, rs'), u') \<Longrightarrow> met_inv raw stack rs u \<Longrightarrow>
                   length rs = n \<Longrightarrow> i < n \<Longrightarrow>
                   met_inv raw stack rs' u' \<and> length rs' = n \<and> v = m_accResident (rs' ! i) \<and>
                   i \<notin> unset rs' \<and> (i \<notin> unset rs \<longrightarrow> rs' = rs \<and> u' = u)"
    and cur: "cur \<in> set stack" "cur < n"
  shows "populateAcc_loop_met icall stack cur is rows adds = Inr (rows', adds') \<Longrightarrow>
         met_inv raw stack rows adds \<Longrightarrow> length rows = n \<Longrightarrow> set is \<subseteq> {..<n} \<Longrightarrow>
         met_inv raw stack rows' adds' \<and> length rows' = n"
proof (induction "is" arbitrary: rows adds)
  case Nil
  then show ?case by simp
next
  case (Cons i "is")
  have i: "i < n" and sub: "set is \<subseteq> {..<n}" using Cons.prems(4) by simp_all
  show ?case
  proof (cases "i \<noteq> cur \<and> parent (rows ! i) = id' (rows ! cur)")
    case False
    then have "populateAcc_loop_met icall stack cur (i # is) rows adds =
               populateAcc_loop_met icall stack cur is rows adds"
      by auto
    then show ?thesis using Cons.IH [OF _ Cons.prems(2,3) sub] Cons.prems(1) by simp
  next
    case True
    with Cons.prems(1) obtain v rows1 adds1 x where
      c: "icall rows i adds = Inr ((v, rows1), adds1)" and
      a: "long_add (m_accResident (rows1 ! cur)) v = Some x" and
      l: "populateAcc_loop_met icall stack cur is (rows1[cur := (rows1 ! cur)\<lparr>m_accResident := x\<rparr>])
            (adds1 @ [\<lparr>into = cur, child = i, amount = v, in_progress = (i \<in> set stack),
                       before = rows, returned = rows1\<rparr>]) = Inr (rows', adds')"
      by (auto split: sum.splits option.splits)
    from call [OF c Cons.prems(2,3) i] have J1: "met_inv raw stack rows1 adds1"
      and len1: "length rows1 = n" and v: "v = m_accResident (rows1 ! i)"
      and iu: "i \<notin> unset rows1" and same: "i \<notin> unset rows \<longrightarrow> rows1 = rows \<and> adds1 = adds"
      by simp_all
    have x: "x = m_accResident (rows1 ! cur) + v" using long_add_Some [OF a] by simp
    have ip: "rows1 = rows" if "i \<in> set stack"
    proof -
      have "i \<notin> unset rows" using that Cons.prems(2) by (auto simp add: met_inv_def)
      then show ?thesis using same by simp
    qed
    have J2: "met_inv raw stack (rows1[cur := (rows1 ! cur)\<lparr>m_accResident := x\<rparr>])
            (adds1 @ [\<lparr>into = cur, child = i, amount = v, in_progress = (i \<in> set stack),
                       before = rows, returned = rows1\<rparr>])"
    proof -
      have c1: "cur < length rows1" and i1: "i < length rows1" using len1 cur(2) i by simp_all
      from met_inv_add [OF J1 cur(1) c1 i1 iu v ip] show ?thesis unfolding x by simp
    qed
    have len2: "length (rows1[cur := (rows1 ! cur)\<lparr>m_accResident := x\<rparr>]) = n" using len1 by simp
    from Cons.IH [OF l J2 len2 sub] show ?thesis .
  qed
qed

lemma populateAccForProcess_met_inv:
  "Machine_populateAccForProcess_met d stack rows n cur adds = Inr ((v, rows'), adds') \<Longrightarrow>
   met_inv raw stack rows adds \<Longrightarrow> length rows = n \<Longrightarrow> cur < n \<Longrightarrow>
   met_inv raw stack rows' adds' \<and> length rows' = n \<and> v = m_accResident (rows' ! cur) \<and>
   cur \<notin> unset rows' \<and> (cur \<notin> unset rows \<longrightarrow> rows' = rows \<and> adds' = adds)"
proof (induction d arbitrary: stack rows cur adds v rows' adds')
  case 0
  then show ?case by simp
next
  case (Suc d)
  show ?case
  proof (cases "m_accResident (rows ! cur) \<noteq> - 1")
    case True
    then have "v = m_accResident (rows ! cur)" "rows' = rows" "adds' = adds"
      using Suc.prems(1) by auto
    moreover have "cur \<notin> unset rows" using True by (simp add: unset_def)
    ultimately show ?thesis using Suc.prems(2,3) by simp
  next
    case False
    let ?rows1 = "rows[cur := (rows ! cur)\<lparr>m_accResident := m_resident (rows ! cur)\<rparr>]"
    from False Suc.prems(1) have
      l: "populateAcc_loop_met (\<lambda>rs i u. Machine_populateAccForProcess_met d (cur # stack) rs n i u)
            (cur # stack) cur [0..<n] ?rows1 adds = Inr (rows', adds')"
      and v: "v = m_accResident (rows' ! cur)"
      by (auto split: sum.splits)
    have cu: "cur \<in> unset rows" using False Suc.prems(3,4) by (simp add: unset_def)
    have cl: "cur < length rows" using Suc.prems(3,4) by simp
    have J1: "met_inv raw (cur # stack) ?rows1 adds" using Suc.prems(2) cl cu by (rule met_inv_start)
    have len1: "length ?rows1 = n" using Suc.prems(3) by simp
    have sub: "set [0..<n] \<subseteq> {..<n}" by auto
    have cs: "cur \<in> set (cur # stack)" by simp
    have r: "met_inv raw (cur # stack) rows' adds' \<and> length rows' = n"
      using _ cs Suc.prems(4) l J1 len1 sub by (rule populateAcc_loop_met_inv) (rule Suc.IH)
    then have "cur \<notin> unset rows'" by (auto simp add: met_inv_def)
    then show ?thesis using r v cu met_inv_stack by blast
  qed
qed

lemma populateAll_loop_met_inv:
  "populateAll_loop_met d n is rows adds = Inr (rows', adds') \<Longrightarrow> met_inv raw [] rows adds \<Longrightarrow>
   length rows = n \<Longrightarrow> set is \<subseteq> {..<n} \<Longrightarrow> met_inv raw [] rows' adds' \<and> length rows' = n"
proof (induction "is" arbitrary: rows adds)
  case Nil
  then show ?case by simp
next
  case (Cons i "is")
  have i: "i < n" and sub: "set is \<subseteq> {..<n}" using Cons.prems(4) by simp_all
  from Cons.prems(1) obtain v rows1 adds1 where
    c: "Machine_populateAccForProcess_met d [] rows n i adds = Inr ((v, rows1), adds1)" and
    l: "populateAll_loop_met d n is rows1 adds1 = Inr (rows', adds')"
    by (auto split: sum.splits)
  from populateAccForProcess_met_inv [OF c Cons.prems(2,3) i]
  have "met_inv raw [] rows1 adds1" "length rows1 = n" by simp_all
  from Cons.IH [OF l this sub] show ?case .
qed

lemma populateAccumulatedFields_met_log:
  assumes "\<forall>p \<in> set rows. 0 \<le> m_resident p"
    and "Machine_populateAccumulatedFields_met d rows = Inr (rows', adds)"
  shows "log_ok (map m_resident rows) adds"
proof -
  let ?rows1 = "map (\<lambda>p. p\<lparr>m_accResident := - 1\<rparr>) rows"
  from assms(2) obtain rows2 where
    l: "populateAll_loop_met d (length rows) [0..<length rows] ?rows1 [] = Inr (rows2, adds)"
    by (auto simp add: Machine_populateAccumulatedFields_met_def Let_def split: sum.splits)
  have "unset ?rows1 = {..<length rows}" by (auto simp add: unset_def)
  then have J: "met_inv (map m_resident rows) [] ?rows1 []"
    using assms(1) by (simp add: met_inv_def inv_nonneg_def log_ok_def comp_def)
  have sub: "set [0..<length rows] \<subseteq> {..<length rows}" by auto
  from populateAll_loop_met_inv [OF l J _ sub] show ?thesis by (simp add: met_inv_def)
qed

text \<open>
  Claim C3, amended. When, in a pass over rows with non-negative resident sizes in which no
  addition overflows \<^verbatim>\<open>long\<close>, a child is met that is in progress (the loop of its own
  call is still running: the child is an ancestor of itself, a cycle), the call on the
  child changes no row, and the child contributes to its parent the value that its
  \<^verbatim>\<open>m_accResident\<close> holds at that moment: its resident size from before the pass plus
  everything that has been added to it until then. The pass returns as soon as more nested
  calls are available than there are rows.
\<close>

theorem in_progress_contribution:
  assumes "\<forall>p \<in> set rows. 0 \<le> m_resident p" and "length rows < d"
    and "Machine_populateAccumulatedFields_met d rows \<noteq> Inl Signed_overflow"
  shows "\<exists>rows' adds.
           Machine_populateAccumulatedFields_met d rows = Inr (rows', adds) \<and>
           Machine_populateAccumulatedFields_long d rows = Inr rows' \<and>
           (\<forall>k < length adds. in_progress (adds ! k) \<longrightarrow>
              returned (adds ! k) = before (adds ! k) \<and>
              amount (adds ! k) = m_accResident (before (adds ! k) ! child (adds ! k)) \<and>
              m_accResident (before (adds ! k) ! child (adds ! k)) =
                m_resident (rows ! child (adds ! k)) + added (take k adds) (child (adds ! k)))"
proof -
  from populateAccumulatedFields_returns [of rows d] assms(1,2)
  obtain rows' where r: "Machine_populateAccumulatedFields d rows = Some rows'" by auto
  have e: "map_sum id fst (Machine_populateAccumulatedFields_met d rows) =
           Machine_populateAccumulatedFields_long d rows"
    by (rule populateAccumulatedFields_met_fst)
  have "Machine_populateAccumulatedFields_long d rows \<noteq> Inl Signed_overflow"
  proof
    assume "Machine_populateAccumulatedFields_long d rows = Inl Signed_overflow"
    then have "Machine_populateAccumulatedFields_met d rows = Inl Signed_overflow"
      using e by (cases "Machine_populateAccumulatedFields_met d rows") simp_all
    then show False using assms(3) by simp
  qed
  with populateAccumulatedFields_exact_long [OF r]
  have l: "Machine_populateAccumulatedFields_long d rows = Inr rows'" by simp
  then obtain adds where m: "Machine_populateAccumulatedFields_met d rows = Inr (rows', adds)"
    using e by (cases "Machine_populateAccumulatedFields_met d rows") auto
  from populateAccumulatedFields_met_log [OF assms(1) m]
  have ok: "log_ok (map m_resident rows) adds" .
  have "\<forall>k < length adds. in_progress (adds ! k) \<longrightarrow>
              returned (adds ! k) = before (adds ! k) \<and>
              amount (adds ! k) = m_accResident (before (adds ! k) ! child (adds ! k)) \<and>
              m_accResident (before (adds ! k) ! child (adds ! k)) =
                m_resident (rows ! child (adds ! k)) + added (take k adds) (child (adds ! k))"
  proof (intro allI impI)
    fix k
    assume k: "k < length adds" and p: "in_progress (adds ! k)"
    from ok [unfolded log_ok_def, rule_format, OF k] p
    have c: "child (adds ! k) < length rows"
      and a: "amount (adds ! k) =
                map m_resident rows ! child (adds ! k) + added (take k adds) (child (adds ! k))"
      and b: "returned (adds ! k) = before (adds ! k)"
      and b': "m_accResident (before (adds ! k) ! child (adds ! k)) = amount (adds ! k)"
      by simp_all
    from a c have "amount (adds ! k) =
                m_resident (rows ! child (adds ! k)) + added (take k adds) (child (adds ! k))"
      by simp
    with b b' show "returned (adds ! k) = before (adds ! k) \<and>
              amount (adds ! k) = m_accResident (before (adds ! k) ! child (adds ! k)) \<and>
              m_accResident (before (adds ! k) ! child (adds ! k)) =
                m_resident (rows ! child (adds ! k)) + added (take k adds) (child (adds ! k))"
      by simp
  qed
  with m l show ?thesis by blast
qed

text \<open>
  The three rows of \<open>rows_cycle3\<close>, with four nested calls available. The log has three
  additions. The second is the meeting of a row in progress: the loop of row 2 (index 2)
  calls row 1 (index 0), whose loop is running. The rows are then \<open>rows_cycle3_mid\<close>, the
  call returns them as they are, and row 1 contributes the 11 that it holds: its resident
  size 1 plus the 10 added to it before.
\<close>

theorem in_progress_contribution_witness:
  "\<exists>rows' adds.
     Machine_populateAccumulatedFields_met 4 rows_cycle3 = Inr (rows', adds) \<and>
     map m_accResident rows' = [122, 10, 111] \<and>
     map (\<lambda>a. (into a, child a, amount a, in_progress a)) adds =
       [(0, 1, 10, False), (2, 0, 11, True), (0, 2, 111, False)] \<and>
     before (adds ! 1) = rows_cycle3_mid \<and> returned (adds ! 1) = rows_cycle3_mid \<and>
     amount (adds ! 1) = m_accResident (rows_cycle3_mid ! 0) \<and>
     m_accResident (rows_cycle3_mid ! 0) = 1 + added (take 1 adds) 0 \<and>
     added (take 1 adds) 0 = 10"
proof -
  let ?g = "\<lambda>a. (into a, child a, amount a, in_progress a)"
  have ev: "map_sum id (\<lambda>(r, l). (map m_accResident r, map ?g l, before (l ! 1)))
              (Machine_populateAccumulatedFields_met 4 rows_cycle3) =
            Inr ([122, 10, 111], [(0, 1, 10, False), (2, 0, 11, True), (0, 2, 111, False)],
                 rows_cycle3_mid)"
    unfolding rows_cycle3_def rows_cycle3_mid_def by code_simp
  then have n: "Machine_populateAccumulatedFields_met 4 rows_cycle3 \<noteq> Inl Signed_overflow" by auto
  have a: "\<forall>p \<in> set rows_cycle3. 0 \<le> m_resident p" by (simp add: rows_cycle3_def)
  have b: "length rows_cycle3 < 4" by (simp add: rows_cycle3_def)
  from in_progress_contribution [OF a b n]
  obtain rows' adds where
    m: "Machine_populateAccumulatedFields_met 4 rows_cycle3 = Inr (rows', adds)" and
    p: "\<forall>k < length adds. in_progress (adds ! k) \<longrightarrow>
              returned (adds ! k) = before (adds ! k) \<and>
              amount (adds ! k) = m_accResident (before (adds ! k) ! child (adds ! k)) \<and>
              m_accResident (before (adds ! k) ! child (adds ! k)) =
                m_resident (rows_cycle3 ! child (adds ! k)) +
                added (take k adds) (child (adds ! k))"
    by blast
  from ev m have r: "map m_accResident rows' = [122, 10, 111]"
    and g: "map ?g adds = [(0, 1, 10, False), (2, 0, 11, True), (0, 2, 111, False)]"
    and bf: "before (adds ! 1) = rows_cycle3_mid"
    by simp_all
  from g have len: "length adds = 3" using length_map [of ?g adds] by simp
  have "?g (adds ! 1) = map ?g adds ! 1" using len by (simp only: nth_map)
  then have g1: "?g (adds ! 1) = (2, 0, 11, True)" using g by simp
  then have ip: "in_progress (adds ! 1)" and ch: "child (adds ! 1) = 0" by simp_all
  have "?g (adds ! 0) = map ?g adds ! 0" using len by (simp only: nth_map)
  then have g0: "?g (adds ! 0) = (0, 1, 10, False)" using g by simp
  have "take 1 adds = [adds ! 0]" using len by (cases adds) simp_all
  then have ad: "added (take 1 adds) 0 = 10" using g0 by (simp add: added_def)
  have raw: "m_resident (rows_cycle3 ! 0) = 1" by (simp add: rows_cycle3_def)
  from p [rule_format, of 1] len ip ch bf raw
  have h: "returned (adds ! 1) = rows_cycle3_mid \<and>
        amount (adds ! 1) = m_accResident (rows_cycle3_mid ! 0) \<and>
        m_accResident (rows_cycle3_mid ! 0) = 1 + added (take 1 adds) 0"
    by simp
  have "Machine_populateAccumulatedFields_met 4 rows_cycle3 = Inr (rows', adds) \<and>
     map m_accResident rows' = [122, 10, 111] \<and>
     map ?g adds = [(0, 1, 10, False), (2, 0, 11, True), (0, 2, 111, False)] \<and>
     before (adds ! 1) = rows_cycle3_mid \<and> returned (adds ! 1) = rows_cycle3_mid \<and>
     amount (adds ! 1) = m_accResident (rows_cycle3_mid ! 0) \<and>
     m_accResident (rows_cycle3_mid ! 0) = 1 + added (take 1 adds) 0 \<and>
     added (take 1 adds) 0 = 10"
    using m r g bf ad h by (intro conjI) (rule m r g bf ad, simp_all)
  then show ?thesis by (intro exI)
qed

end
